theory Spec2Isabelle
  imports Complex_Main "HOL-Library.Word"
begin

section \<open>Primitive registry\<close>

text \<open>
  The two cited modules, \<^verbatim>\<open>src/index.js\<close> and the first module of \<^verbatim>\<open>src/index.ts\<close>, are
  embedded side by side. JavaScript objects are duck-typed, so both modules work on one
  universe of values; a function that exists in both carries the suffix \<open>_js\<close> or \<open>_ts\<close>.

  A primitive descriptor is the object literal \<^verbatim>\<open>{ size, arrayType, getter, setter }\<close>.
\<close>

datatype arrayType =
  Float32Array | Float64Array | Uint16Array | Uint32Array | BigUint64Array
  | Int16Array | Int32Array | BigInt64Array

datatype getter =
  getFloat32 | getFloat64 | getUint16 | getUint32 | getBigUint64
  | getInt16 | getInt32 | getBigInt64

datatype setter =
  setFloat32 | setFloat64 | setUint16 | setUint32 | setBigUint64
  | setInt16 | setInt32 | setBigInt64

record PrimitiveDescriptor =
  size_p :: nat
  arrayType :: arrayType
  getter :: getter
  setter :: setter

text \<open>The table \<^verbatim>\<open>p\<close> of \<^verbatim>\<open>index.js\<close>, lines 2 to 11.\<close>

definition p_js :: "(string \<times> PrimitiveDescriptor) list" where
  "p_js =
    [(''float32'', \<lparr>size_p = 4, arrayType = Float32Array, getter = getFloat32, setter = setFloat32\<rparr>),
     (''float64'', \<lparr>size_p = 4, arrayType = Float64Array, getter = getFloat64, setter = setFloat64\<rparr>),
     (''uint16'', \<lparr>size_p = 2, arrayType = Uint16Array, getter = getUint16, setter = setUint16\<rparr>),
     (''uint32'', \<lparr>size_p = 4, arrayType = Uint32Array, getter = getUint32, setter = setUint32\<rparr>),
     (''uint64'', \<lparr>size_p = 8, arrayType = BigUint64Array, getter = getBigUint64, setter = setBigUint64\<rparr>),
     (''int16'', \<lparr>size_p = 2, arrayType = Int16Array, getter = getInt16, setter = setInt16\<rparr>),
     (''int32'', \<lparr>size_p = 4, arrayType = Int32Array, getter = getInt32, setter = setInt32\<rparr>),
     (''int64'', \<lparr>size_p = 8, arrayType = BigInt64Array, getter = getBigInt64, setter = setBigInt64\<rparr>)]"

text \<open>The table \<^verbatim>\<open>p\<close> of \<^verbatim>\<open>index.ts\<close>, lines 89 to 138.\<close>

definition p_ts :: "(string \<times> PrimitiveDescriptor) list" where
  "p_ts =
    [(''float32'', \<lparr>size_p = 4, arrayType = Float32Array, getter = getFloat32, setter = setFloat32\<rparr>),
     (''float64'', \<lparr>size_p = 8, arrayType = Float64Array, getter = getFloat64, setter = setFloat64\<rparr>),
     (''uint16'', \<lparr>size_p = 2, arrayType = Uint16Array, getter = getUint16, setter = setUint16\<rparr>),
     (''uint32'', \<lparr>size_p = 4, arrayType = Uint32Array, getter = getUint32, setter = setUint32\<rparr>),
     (''uint64'', \<lparr>size_p = 8, arrayType = BigUint64Array, getter = getBigUint64, setter = setBigUint64\<rparr>),
     (''int16'', \<lparr>size_p = 2, arrayType = Int16Array, getter = getInt16, setter = setInt16\<rparr>),
     (''int32'', \<lparr>size_p = 4, arrayType = Int32Array, getter = getInt32, setter = setInt32\<rparr>),
     (''int64'', \<lparr>size_p = 8, arrayType = BigInt64Array, getter = getBigInt64, setter = setBigInt64\<rparr>)]"

text \<open>
  \<^verbatim>\<open>p.name\<close>: every name read by the modules is a key of the table, so the lookup is total
  on them.
\<close>

definition p_get :: "(string \<times> PrimitiveDescriptor) list \<Rightarrow> string \<Rightarrow> PrimitiveDescriptor" where
  "p_get p name = the (map_of p name)"

text \<open>
  The platform's numeric kinds: the number of bits of one element of a typed array and of
  one DataView access. \<^verbatim>\<open>Float64Array.BYTES_PER_ELEMENT\<close> is 8 whatever a descriptor's
  \<^verbatim>\<open>size\<close> says.
\<close>

fun bits :: "arrayType \<Rightarrow> nat" where
  "bits Float32Array = 32"
| "bits Float64Array = 64"
| "bits Uint16Array = 16"
| "bits Uint32Array = 32"
| "bits BigUint64Array = 64"
| "bits Int16Array = 16"
| "bits Int32Array = 32"
| "bits BigInt64Array = 64"

definition BYTES_PER_ELEMENT :: "arrayType \<Rightarrow> nat" where
  "BYTES_PER_ELEMENT t = bits t div 8"

fun getter_kind :: "getter \<Rightarrow> arrayType" where
  "getter_kind getFloat32 = Float32Array"
| "getter_kind getFloat64 = Float64Array"
| "getter_kind getUint16 = Uint16Array"
| "getter_kind getUint32 = Uint32Array"
| "getter_kind getBigUint64 = BigUint64Array"
| "getter_kind getInt16 = Int16Array"
| "getter_kind getInt32 = Int32Array"
| "getter_kind getBigInt64 = BigInt64Array"

fun setter_kind :: "setter \<Rightarrow> arrayType" where
  "setter_kind setFloat32 = Float32Array"
| "setter_kind setFloat64 = Float64Array"
| "setter_kind setUint16 = Uint16Array"
| "setter_kind setUint32 = Uint32Array"
| "setter_kind setBigUint64 = BigUint64Array"
| "setter_kind setInt16 = Int16Array"
| "setter_kind setInt32 = Int32Array"
| "setter_kind setBigInt64 = BigInt64Array"

section \<open>Numbers, values and errors\<close>

text \<open>
  Sizes, lengths and offsets are JavaScript numbers. Primitive sizes are naturals and
  \<^verbatim>\<open>c.array\<close> checks its length, so the only numbers that occur in a layout are naturals
  and \<^verbatim>\<open>NaN\<close>, which arithmetic on \<^verbatim>\<open>undefined\<close> produces. (Doubles are exact on integers
  below \<open>2^53\<close>; larger layouts are outside the model.)
\<close>

datatype number = Num nat | NaN

fun plus_n :: "number \<Rightarrow> number \<Rightarrow> number" where
  "plus_n (Num a) (Num b) = Num (a + b)"
| "plus_n _ _ = NaN"

fun times_n :: "number \<Rightarrow> number \<Rightarrow> number" where
  "times_n (Num a) (Num b) = Num (a * b)"
| "times_n _ _ = NaN"

text \<open>\<^verbatim>\<open>x * y\<close> where \<^verbatim>\<open>y\<close> may be \<^verbatim>\<open>undefined\<close> (\<open>None\<close>): \<^verbatim>\<open>ToNumber(undefined)\<close> is \<^verbatim>\<open>NaN\<close>.\<close>

fun times_u :: "number \<Rightarrow> nat option \<Rightarrow> number" where
  "times_u x (Some n) = times_n x (Num n)"
| "times_u x None = NaN"

text \<open>Truthiness of a number: \<^verbatim>\<open>0\<close> and \<^verbatim>\<open>NaN\<close> are falsy.\<close>

fun truthy :: "number \<Rightarrow> bool" where
  "truthy (Num n) = (n \<noteq> 0)"
| "truthy NaN = False"

text \<open>\<^verbatim>\<open>ToIndex\<close>, as applied to byte lengths and byte offsets: \<^verbatim>\<open>NaN\<close> becomes 0.\<close>

fun ToIndex :: "number \<Rightarrow> nat" where
  "ToIndex (Num n) = n"
| "ToIndex NaN = 0"

text \<open>
  The primitive values that are written to fields or passed as a length: \<^verbatim>\<open>undefined\<close>,
  \<^verbatim>\<open>null\<close>, Numbers (finite ones as rationals) and BigInts.
\<close>

datatype "value" = Undefined | Null | Number rat | NaNv | PosInf | NegInf | BigInt int

datatype error = TypeError | RangeError | Error string

section \<open>Descriptors\<close>

text \<open>
  A descriptor is an object whose \<^verbatim>\<open>create\<close>, where it has one, is a closure; the closure is
  represented by the data it closes over.
  \<^item> \<open>StructJs size fields\<close>: \<^verbatim>\<open>{ size, create }\<close> returned by \<^verbatim>\<open>c.struct\<close> of \<^verbatim>\<open>index.js\<close>;
  \<^item> \<open>ArrayJs elemDesc length size\<close>: \<^verbatim>\<open>{ kind: 'array', elemDesc, length, size }\<close> returned by
    \<^verbatim>\<open>c.array\<close> of \<^verbatim>\<open>index.js\<close>; it has no \<^verbatim>\<open>create\<close>;
  \<^item> \<open>StructTs size fields\<close>: \<^verbatim>\<open>{ size, create }\<close> returned by \<^verbatim>\<open>c.struct\<close> of \<^verbatim>\<open>index.ts\<close>;
  \<^item> \<open>ArrayTs structDesc length\<close>: \<^verbatim>\<open>{ size: structDesc.size * length, create }\<close> returned by
    \<^verbatim>\<open>c.array\<close> of \<^verbatim>\<open>index.ts\<close>, whose \<^verbatim>\<open>create\<close> closes over \<^verbatim>\<open>structDesc\<close> and \<^verbatim>\<open>length\<close>; the
    object has no \<^verbatim>\<open>kind\<close>, \<^verbatim>\<open>elemDesc\<close> or \<^verbatim>\<open>length\<close> property.

  A field entry is the union \<^verbatim>\<open>FieldDescriptor\<close>. The \<^verbatim>\<open>elem\<close> of a vector entry is
  \<^verbatim>\<open>type[0]\<close>, whatever value that is. The \<^verbatim>\<open>length\<close> of an array entry is whatever the
  resolver read, a number or \<^verbatim>\<open>undefined\<close> (\<open>None\<close>).

  The values a schema maps a field name to, and the values passed to \<^verbatim>\<open>c.array\<close>, are those of
  \<open>jsval\<close>: a primitive value, a primitive descriptor, a JavaScript array of such values, or
  a descriptor.
\<close>

datatype descriptor =
  StructJs number "field list"
  | ArrayJs descriptor nat number
  | StructTs number "field list"
  | ArrayTs descriptor nat
and field =
  Scalar string PrimitiveDescriptor number
  | Vector string jsval nat number
  | Struct string descriptor number
  | Array string descriptor "nat option" number
and jsval =
  Val "value"
  | Prim PrimitiveDescriptor
  | List "jsval list"
  | Desc descriptor

text \<open>Property reads on a descriptor.\<close>

fun size_d :: "descriptor \<Rightarrow> number" where
  "size_d (StructJs s fs) = s"
| "size_d (ArrayJs e n s) = s"
| "size_d (StructTs s fs) = s"
| "size_d (ArrayTs e n) = times_n (size_d e) (Num n)"

text \<open>\<^verbatim>\<open>typeof d.create === 'function'\<close>\<close>

fun has_create :: "descriptor \<Rightarrow> bool" where
  "has_create (ArrayJs e n s) = False"
| "has_create _ = True"

text \<open>\<^verbatim>\<open>d.kind === 'array'\<close>\<close>

fun kind_is_array :: "descriptor \<Rightarrow> bool" where
  "kind_is_array (ArrayJs e n s) = True"
| "kind_is_array _ = False"

text \<open>\<^verbatim>\<open>d.length\<close>\<close>

fun length_d :: "descriptor \<Rightarrow> nat option" where
  "length_d (ArrayJs e n s) = Some n"
| "length_d _ = None"

fun name_f :: "field \<Rightarrow> string" where
  "name_f (Scalar name d off) = name"
| "name_f (Vector name e n off) = name"
| "name_f (Struct name d off) = name"
| "name_f (Array name e n off) = name"

fun offset_f :: "field \<Rightarrow> number" where
  "offset_f (Scalar name d off) = off"
| "offset_f (Vector name e n off) = off"
| "offset_f (Struct name d off) = off"
| "offset_f (Array name e n off) = off"

text \<open>
  The property reads \<^verbatim>\<open>elem.size\<close>, as an operand of a product, and \<^verbatim>\<open>elem.arrayType\<close> on a
  value other than \<^verbatim>\<open>undefined\<close> and \<^verbatim>\<open>null\<close>: a property that the value does not have reads
  as \<^verbatim>\<open>undefined\<close>, which is \<^verbatim>\<open>NaN\<close> as a number.
\<close>

fun size_v :: "jsval \<Rightarrow> number" where
  "size_v (Prim p) = Num (size_p p)"
| "size_v (Desc d) = size_d d"
| "size_v v = NaN"

fun arrayType_v :: "jsval \<Rightarrow> arrayType option" where
  "arrayType_v (Prim p) = Some (arrayType p)"
| "arrayType_v v = None"

section \<open>Object.entries\<close>

text \<open>
  A schema is an object. It is given by the list of its properties in the order in which
  they were created, with distinct keys. \<^verbatim>\<open>Object.entries\<close> lists the properties whose key is
  an array index (the decimal numeral, without leading zeros, of a number below \<open>2^32 - 1\<close>)
  first, by ascending index, and the other properties after them in the order of creation.
\<close>

definition digit :: "char \<Rightarrow> bool" where
  "digit c \<longleftrightarrow> c \<in> set ''0123456789''"

definition numeral_value :: "string \<Rightarrow> nat" where
  "numeral_value s = foldl (\<lambda>n c. 10 * n + (of_char c - 48)) 0 s"

definition array_index :: "string \<Rightarrow> nat option" where
  "array_index s =
    (if s \<noteq> [] \<and> list_all digit s \<and> (s = ''0'' \<or> hd s \<noteq> CHR ''0'') \<and> numeral_value s < 2 ^ 32 - 1
     then Some (numeral_value s) else None)"

definition Object_entries :: "(string \<times> 'a) list \<Rightarrow> (string \<times> 'a) list" where
  "Object_entries obj =
     sort_key (\<lambda>(k, v). the (array_index k)) (filter (\<lambda>(k, v). array_index k \<noteq> None) obj)
     @ filter (\<lambda>(k, v). array_index k = None) obj"

section \<open>c.array\<close>

text \<open>\<^verbatim>\<open>Number.isInteger(length) && length > 0\<close>, with the natural number it then is.\<close>

fun positive_integer :: "jsval \<Rightarrow> nat option" where
  "positive_integer (Val (Number q)) =
     (if q = of_int \<lfloor>q\<rfloor> \<and> 0 < q then Some (nat \<lfloor>q\<rfloor>) else None)"
| "positive_integer _ = None"

text \<open>
  The first check of \<^verbatim>\<open>c.array\<close>: reading \<^verbatim>\<open>structDesc.size\<close> throws a TypeError on
  \<^verbatim>\<open>undefined\<close> and \<^verbatim>\<open>null\<close>; otherwise the argument passes when \<^verbatim>\<open>size\<close> is a number and
  \<^verbatim>\<open>create\<close> a function. Only a descriptor has a \<^verbatim>\<open>create\<close>.
\<close>

fun check_structDesc :: "string \<Rightarrow> jsval \<Rightarrow> error + descriptor" where
  "check_structDesc msg (Val Undefined) = Inl TypeError"
| "check_structDesc msg (Val Null) = Inl TypeError"
| "check_structDesc msg (Desc d) = (if has_create d then Inr d else Inl (Error msg))"
| "check_structDesc msg _ = Inl (Error msg)"

text \<open>\<^verbatim>\<open>c.array\<close> of \<^verbatim>\<open>index.js\<close>, lines 25 to 38.\<close>

definition array_js :: "jsval \<Rightarrow> jsval \<Rightarrow> error + descriptor" where
  "array_js structDesc len =
    (case check_structDesc ''c.array: first arg must be a struct descriptor'' structDesc of
       Inl e \<Rightarrow> Inl e
     | Inr d \<Rightarrow>
        (case positive_integer len of
           None \<Rightarrow> Inl (Error ''c.array: length must be a positive integer'')
         | Some n \<Rightarrow> Inr (ArrayJs d n (times_n (size_d d) (Num n)))))"

text \<open>\<^verbatim>\<open>c.array\<close> of \<^verbatim>\<open>index.ts\<close>, lines 241 to 276 (its \<^verbatim>\<open>create\<close> is in \<open>create\<close> below).\<close>

definition array_ts :: "jsval \<Rightarrow> jsval \<Rightarrow> error + descriptor" where
  "array_ts structDesc len =
    (case check_structDesc ''c.array: first arg must be a StructDescriptor'' structDesc of
       Inl e \<Rightarrow> Inl e
     | Inr d \<Rightarrow>
        (case positive_integer len of
           None \<Rightarrow> Inl (Error ''c.array: length must be a positive integer'')
         | Some n \<Rightarrow> Inr (ArrayTs d n)))"

section \<open>c.struct of index.js: the layout pass\<close>

definition unknown_field_type :: "string \<Rightarrow> error" where
  "unknown_field_type name = Error (''Unknown field type for '' @ [CHR 0x22] @ name @ [CHR 0x22])"

text \<open>
  One iteration of the loop of \<^verbatim>\<open>index.js\<close>, lines 45 to 82: the entry recorded for
  \<^verbatim>\<open>[name, type]\<close> at the running offset and the new running offset. For a JavaScript array
  the element \<^verbatim>\<open>type[0]\<close> is taken as it is: \<^verbatim>\<open>elem.size\<close> throws a TypeError when it is
  \<^verbatim>\<open>undefined\<close> (as it is for the empty array) or \<^verbatim>\<open>null\<close>, and no other test is made.
  \<^verbatim>\<open>type.kind\<close> throws a TypeError on \<^verbatim>\<open>undefined\<close> and \<^verbatim>\<open>null\<close>. (The \<^verbatim>\<open>console.log\<close> of
  line 53 is left out.)
\<close>

fun entry_js :: "string \<Rightarrow> jsval \<Rightarrow> number \<Rightarrow> error + (field \<times> number)" where
  "entry_js name (List []) offset = Inl TypeError"
| "entry_js name (List (Val Undefined # rest)) offset = Inl TypeError"
| "entry_js name (List (Val Null # rest)) offset = Inl TypeError"
| "entry_js name (List (elem # rest)) offset =
     Inr (Vector name elem (length (elem # rest)) offset,
          plus_n offset (times_n (size_v elem) (Num (length (elem # rest)))))"
| "entry_js name (Val Undefined) offset = Inl TypeError"
| "entry_js name (Val Null) offset = Inl TypeError"
| "entry_js name (Val v) offset = Inl (unknown_field_type name)"
| "entry_js name (Desc (ArrayJs elemDesc n s)) offset =
     Inr (Array name elemDesc (Some n) offset, plus_n offset s)"
| "entry_js name (Prim type) offset =
     Inr (Scalar name type offset, plus_n offset (Num (size_p type)))"
| "entry_js name (Desc type) offset =
     (if truthy (size_d type) \<and> has_create type
      then Inr (Struct name type offset, plus_n offset (size_d type))
      else Inl (unknown_field_type name))"

text \<open>
  The loop over \<^verbatim>\<open>Object.entries(schema)\<close>: \<^verbatim>\<open>offset\<close> and \<^verbatim>\<open>fields\<close> (\<open>flds\<close>) are the loop's
  two variables. \<^verbatim>\<open>index.js\<close> keeps the entries in an object keyed by the field name and walks
  \<^verbatim>\<open>Object.values(fields)\<close>, which is the order in which they were recorded.
\<close>

fun loop_js :: "(string \<times> jsval) list \<Rightarrow> number \<Rightarrow> field list \<Rightarrow> error + (field list \<times> number)" where
  "loop_js [] offset flds = Inr (flds, offset)"
| "loop_js ((name, type) # schema) offset flds =
     (case entry_js name type offset of
        Inl e \<Rightarrow> Inl e
      | Inr (entry, offset') \<Rightarrow> loop_js schema offset' (flds @ [entry]))"

definition struct_js :: "(string \<times> jsval) list \<Rightarrow> error + descriptor" where
  "struct_js schema =
    (case loop_js (Object_entries schema) (Num 0) [] of
       Inl e \<Rightarrow> Inl e
     | Inr (flds, totalSize) \<Rightarrow> Inr (StructJs totalSize flds))"

section \<open>The buffer: ArrayBuffer, DataView and typed arrays\<close>

text \<open>
  The heap of objects with identity. An \<^verbatim>\<open>ArrayBuffer\<close> and a typed array are referred to by
  their position in the order of allocation; \<open>instances\<close> counts the instances of the classes
  \<^verbatim>\<open>Ctor\<close> of \<^verbatim>\<open>index.ts\<close>. \<open>cache\<close> holds the own properties that the vector getters of
  \<^verbatim>\<open>index.ts\<close> define on an instance: instance, property name (\<^verbatim>\<open>"__" + name\<close>), typed array.
  \<open>expando\<close> holds the properties that an assignment \<^verbatim>\<open>dv[i] = v\<close> creates on the DataView of
  an instance: instance, index, value.
\<close>

type_synonym byte = "8 word"

record typed_array =
  ta_type :: arrayType
  ta_buffer :: nat
  byteOffset :: nat
  ta_length :: nat

record heap =
  buffers :: "byte list list"
  typed :: "typed_array list"
  instances :: nat
  cache :: "((nat \<times> string) \<times> nat) list"
  expando :: "((nat \<times> nat) \<times> value) list"

definition empty_heap :: heap where
  "empty_heap = \<lparr>buffers = [], typed = [], instances = 0, cache = [], expando = []\<rparr>"

text \<open>\<^verbatim>\<open>new ArrayBuffer(size)\<close>: \<open>ToIndex size\<close> zero bytes, at a fresh reference.\<close>

definition ArrayBuffer :: "heap \<Rightarrow> number \<Rightarrow> nat \<times> heap" where
  "ArrayBuffer h n = (length (buffers h), h\<lparr>buffers := buffers h @ [replicate (ToIndex n) 0]\<rparr>)"

definition byteLength :: "heap \<Rightarrow> nat \<Rightarrow> nat" where
  "byteLength h b = length (buffers h ! b)"

text \<open>
  \<^verbatim>\<open>new Typed(buffer, byteOffset, length)\<close>: a RangeError when the offset is not a multiple
  of the element size or the window does not fit the buffer; otherwise a fresh typed array.
\<close>

definition TypedArray :: "heap \<Rightarrow> arrayType \<Rightarrow> nat \<Rightarrow> number \<Rightarrow> nat \<Rightarrow> error + (nat \<times> heap)" where
  "TypedArray h t b off len =
    (if \<not> b < length (buffers h) then Inl TypeError
     else if ToIndex off mod BYTES_PER_ELEMENT t \<noteq> 0 then Inl RangeError
     else if ToIndex off + len * BYTES_PER_ELEMENT t > byteLength h b then Inl RangeError
     else Inr (length (typed h),
               h\<lparr>typed := typed h @
                  [\<lparr>ta_type = t, ta_buffer = b, byteOffset = ToIndex off, ta_length = len\<rparr>]\<rparr>))"

text \<open>
  \<^verbatim>\<open>const Typed = elem.arrayType; new Typed(buffer, byteOffset, length)\<close>: a TypeError when
  \<^verbatim>\<open>elem\<close> has no \<^verbatim>\<open>arrayType\<close>, \<^verbatim>\<open>Typed\<close> being \<^verbatim>\<open>undefined\<close>.
\<close>

definition new_Typed :: "heap \<Rightarrow> jsval \<Rightarrow> nat \<Rightarrow> number \<Rightarrow> nat \<Rightarrow> error + (nat \<times> heap)" where
  "new_Typed h elem b off len =
    (case arrayType_v elem of None \<Rightarrow> Inl TypeError | Some t \<Rightarrow> TypedArray h t b off len)"

text \<open>Little-endian bytes of a natural number, and back.\<close>

fun le_bytes :: "nat \<Rightarrow> nat \<Rightarrow> byte list" where
  "le_bytes 0 n = []"
| "le_bytes (Suc k) n = of_nat (n mod 256) # le_bytes k (n div 256)"

fun le_val :: "byte list \<Rightarrow> nat" where
  "le_val [] = 0"
| "le_val (b # bs) = unat b + 256 * le_val bs"

definition write_bytes :: "byte list \<Rightarrow> nat \<Rightarrow> byte list \<Rightarrow> byte list" where
  "write_bytes buf i bs = take i buf @ bs @ drop (i + length bs) buf"

definition read_bytes :: "byte list \<Rightarrow> nat \<Rightarrow> nat \<Rightarrow> byte list" where
  "read_bytes buf i n = take n (drop i buf)"

text \<open>
  The conversions of the platform. \<^verbatim>\<open>ToNumber\<close> and \<^verbatim>\<open>ToBigInt\<close> throw a TypeError on a
  value of the other numeric type.
\<close>

fun ToNumber :: "value \<Rightarrow> error + value" where
  "ToNumber Undefined = Inr NaNv"
| "ToNumber Null = Inr (Number 0)"
| "ToNumber (BigInt i) = Inl TypeError"
| "ToNumber v = Inr v"

fun ToBigInt :: "value \<Rightarrow> error + int" where
  "ToBigInt (BigInt i) = Inr i"
| "ToBigInt v = Inl TypeError"

text \<open>Truncation towards zero.\<close>

definition trunc :: "rat \<Rightarrow> int" where
  "trunc q = (if 0 \<le> q then \<lfloor>q\<rfloor> else \<lceil>q\<rceil>)"

text \<open>\<^verbatim>\<open>ToUint16\<close>, \<^verbatim>\<open>ToUint32\<close> (and the bits of \<^verbatim>\<open>ToInt16\<close>, \<^verbatim>\<open>ToInt32\<close>) of a Number.\<close>

fun ToUint :: "nat \<Rightarrow> value \<Rightarrow> nat" where
  "ToUint w (Number q) = nat (trunc q mod 2 ^ w)"
| "ToUint w v = 0"

text \<open>The value of \<open>w\<close> bits read as two's complement.\<close>

definition signed :: "nat \<Rightarrow> nat \<Rightarrow> int" where
  "signed w n = (if n < 2 ^ (w - 1) then int n else int n - 2 ^ w)"

text \<open>
  The IEEE 754 encodings are the platform's and are a parameter of the model: the bits of a
  Number as binary32 and binary64, and the Number of the bits.
\<close>

record ieee =
  f32_enc :: "value \<Rightarrow> 32 word"
  f32_dec :: "32 word \<Rightarrow> value"
  f64_enc :: "value \<Rightarrow> 64 word"
  f64_dec :: "64 word \<Rightarrow> value"

text \<open>The bytes that a setter of a kind stores for a value, in little-endian order.\<close>

fun encode :: "ieee \<Rightarrow> arrayType \<Rightarrow> value \<Rightarrow> error + byte list" where
  "encode K Float32Array v =
     (case ToNumber v of Inl e \<Rightarrow> Inl e | Inr x \<Rightarrow> Inr (le_bytes 4 (unat (f32_enc K x))))"
| "encode K Float64Array v =
     (case ToNumber v of Inl e \<Rightarrow> Inl e | Inr x \<Rightarrow> Inr (le_bytes 8 (unat (f64_enc K x))))"
| "encode K BigUint64Array v =
     (case ToBigInt v of Inl e \<Rightarrow> Inl e | Inr i \<Rightarrow> Inr (le_bytes 8 (nat (i mod 2 ^ 64))))"
| "encode K BigInt64Array v =
     (case ToBigInt v of Inl e \<Rightarrow> Inl e | Inr i \<Rightarrow> Inr (le_bytes 8 (nat (i mod 2 ^ 64))))"
| "encode K t v =
     (case ToNumber v of Inl e \<Rightarrow> Inl e
      | Inr x \<Rightarrow> Inr (le_bytes (BYTES_PER_ELEMENT t) (ToUint (bits t) x)))"

text \<open>The value that a getter of a kind returns for the bytes.\<close>

fun decode :: "ieee \<Rightarrow> arrayType \<Rightarrow> byte list \<Rightarrow> value" where
  "decode K Float32Array bs = f32_dec K (of_nat (le_val bs))"
| "decode K Float64Array bs = f64_dec K (of_nat (le_val bs))"
| "decode K Uint16Array bs = Number (of_nat (le_val bs))"
| "decode K Uint32Array bs = Number (of_nat (le_val bs))"
| "decode K Int16Array bs = Number (of_int (signed 16 (le_val bs)))"
| "decode K Int32Array bs = Number (of_int (signed 32 (le_val bs)))"
| "decode K BigUint64Array bs = BigInt (int (le_val bs))"
| "decode K BigInt64Array bs = BigInt (signed 64 (le_val bs))"

text \<open>
  \<^verbatim>\<open>view[getter](abs, true)\<close> and \<^verbatim>\<open>view[setter](abs, v, true)\<close> on the DataView of buffer
  \<open>b\<close>, with \<open>pos\<close> for \<^verbatim>\<open>abs\<close>: the value is converted first, then the range is checked.
\<close>

definition DataView_get :: "ieee \<Rightarrow> heap \<Rightarrow> nat \<Rightarrow> getter \<Rightarrow> number \<Rightarrow> error + value" where
  "DataView_get K h b g pos =
    (let t = getter_kind g in
     if ToIndex pos + BYTES_PER_ELEMENT t > byteLength h b then Inl RangeError
     else Inr (decode K t (read_bytes (buffers h ! b) (ToIndex pos) (BYTES_PER_ELEMENT t))))"

definition DataView_set :: "ieee \<Rightarrow> heap \<Rightarrow> nat \<Rightarrow> setter \<Rightarrow> number \<Rightarrow> value \<Rightarrow> error + heap" where
  "DataView_set K h b s pos v =
    (let t = setter_kind s in
     case encode K t v of
       Inl e \<Rightarrow> Inl e
     | Inr bs \<Rightarrow>
        if ToIndex pos + BYTES_PER_ELEMENT t > byteLength h b then Inl RangeError
        else Inr (h\<lparr>buffers := (buffers h)[b := write_bytes (buffers h ! b) (ToIndex pos) bs]\<rparr>))"

text \<open>
  \<^verbatim>\<open>ta[i]\<close> and \<^verbatim>\<open>ta[i] = v\<close> on the typed array with reference \<open>ta\<close>. A read out of range is
  \<^verbatim>\<open>undefined\<close>; a write out of range converts the value and stores nothing. (Typed arrays
  use the byte order of the platform, little-endian on the platforms the library runs on.)
\<close>

definition ta_get :: "ieee \<Rightarrow> heap \<Rightarrow> nat \<Rightarrow> nat \<Rightarrow> value" where
  "ta_get K h ta i =
    (let w = typed h ! ta; n = BYTES_PER_ELEMENT (ta_type w) in
     if i < ta_length w
     then decode K (ta_type w) (read_bytes (buffers h ! ta_buffer w) (byteOffset w + i * n) n)
     else Undefined)"

definition ta_set :: "ieee \<Rightarrow> heap \<Rightarrow> nat \<Rightarrow> nat \<Rightarrow> value \<Rightarrow> error + heap" where
  "ta_set K h ta i v =
    (let w = typed h ! ta; n = BYTES_PER_ELEMENT (ta_type w) in
     case encode K (ta_type w) v of
       Inl e \<Rightarrow> Inl e
     | Inr bs \<Rightarrow>
        if i < ta_length w
        then Inr (h\<lparr>buffers := (buffers h)[ta_buffer w :=
                    write_bytes (buffers h ! ta_buffer w) (byteOffset w + i * n) bs]\<rparr>)
        else Inr h)"

section \<open>Views and create\<close>

text \<open>
  A view is an object returned by a \<^verbatim>\<open>create\<close>.
  \<^item> \<open>Inst b members\<close>: the object \<^verbatim>\<open>inst\<close> of \<^verbatim>\<open>index.js\<close>, its \<^verbatim>\<open>buffer\<close> getter returning \<open>b\<close>,
    with its properties in the order of definition;
  \<^item> \<open>Ctor i b baseOffset flds own\<close>: instance number \<open>i\<close> of the class \<^verbatim>\<open>Ctor\<close> of
    \<^verbatim>\<open>index.ts\<close>, with \<^verbatim>\<open>this.buffer\<close>, \<^verbatim>\<open>this.baseOffset\<close>, the field table that the accessors
    on its prototype close over, and the own properties that the constructor assigns;
  \<^item> \<open>Arr (Some b) views\<close>: the JavaScript array returned by the \<^verbatim>\<open>create\<close> of \<^verbatim>\<open>c.array\<close> of
    \<^verbatim>\<open>index.ts\<close>, with a \<^verbatim>\<open>buffer\<close> getter; \<open>Arr None views\<close>: the plain array that \<^verbatim>\<open>index.js\<close>
    stores for an array field.

  What a property is bound to:
  \<^item> \<open>Acc (Accessor b desc abs)\<close>: the getter and setter pair of a scalar field, on the
    DataView of buffer \<open>b\<close>;
  \<^item> \<open>Vec (Window ta length)\<close>: the getter and setter pair of a vector field of \<^verbatim>\<open>index.js\<close>,
    closing over the typed array \<open>ta\<close>;
  \<^item> \<open>Vec (Lazy i name b elem abs length)\<close>: the getter and setter pair of a vector field of
    \<^verbatim>\<open>index.ts\<close>, which creates the typed array on first access of instance \<open>i\<close>;
  \<^item> \<open>Own v\<close>: a data property holding a view.
  The names of the fields of a schema are taken to be distinct from \<^verbatim>\<open>buffer\<close>, \<^verbatim>\<open>baseOffset\<close>
  and \<^verbatim>\<open>__view\<close>, and no field to be named \<^verbatim>\<open>"__" + name\<close> for a vector field \<^verbatim>\<open>name\<close>.
\<close>

datatype accessor = Accessor nat PrimitiveDescriptor number

datatype vec =
  Window nat nat
  | Lazy nat string nat jsval number nat

datatype view =
  Inst nat "(string \<times> member) list"
  | Ctor nat nat number "field list" "(string \<times> view) list"
  | Arr "nat option" "view list"
and member =
  Acc accessor
  | Vec vec
  | Own view

text \<open>
  \<open>bind d h buffer baseOffset\<close> is \<^verbatim>\<open>d.create(buffer, baseOffset)\<close> with both arguments
  given, in heap \<open>h\<close>.
  \<^item> \<open>bind_js\<close> is the loop of \<^verbatim>\<open>index.js\<close>, lines 98 to 128, over the field table;
  \<^item> \<open>bind_ts\<close> is the loop of the constructor of \<^verbatim>\<open>Ctor\<close>, \<^verbatim>\<open>index.ts\<close>, lines 358 to 364, where
    \<^verbatim>\<open>c.array(f.elemDesc, f.length)\<close> makes its two checks before its \<^verbatim>\<open>create\<close> runs;
  \<^item> \<open>elems d k i\<close> is the rest of the loop \<^verbatim>\<open>for (let i = 0; i < length; i++)\<close> of both
    modules, from index \<open>i\<close> with \<open>k\<close> iterations to go.
  \<^verbatim>\<open>new DataView(buffer)\<close> throws a TypeError when \<^verbatim>\<open>buffer\<close> is no ArrayBuffer, and so does
  calling the \<^verbatim>\<open>create\<close> that an array descriptor of \<^verbatim>\<open>index.js\<close> does not have.
  (\<^verbatim>\<open>index.js\<close> always records a length for an array field; \<^verbatim>\<open>new Array(undefined)\<close> would
  hold no view.)
\<close>

function (sequential) bind :: "descriptor \<Rightarrow> heap \<Rightarrow> nat \<Rightarrow> number \<Rightarrow> error + (view \<times> heap)"
and bind_js :: "field list \<Rightarrow> heap \<Rightarrow> nat \<Rightarrow> number \<Rightarrow> (string \<times> member) list
                 \<Rightarrow> error + ((string \<times> member) list \<times> heap)"
and bind_ts :: "field list \<Rightarrow> heap \<Rightarrow> nat \<Rightarrow> number \<Rightarrow> (string \<times> view) list
                 \<Rightarrow> error + ((string \<times> view) list \<times> heap)"
and elems :: "descriptor \<Rightarrow> nat \<Rightarrow> nat \<Rightarrow> heap \<Rightarrow> nat \<Rightarrow> number \<Rightarrow> view list
               \<Rightarrow> error + (view list \<times> heap)"
where
  "bind (StructJs totalSize flds) h buffer baseOffset =
     (if \<not> buffer < length (buffers h) then Inl TypeError
      else case bind_js flds h buffer baseOffset [] of
             Inl e \<Rightarrow> Inl e
           | Inr (inst, h') \<Rightarrow> Inr (Inst buffer inst, h'))"
| "bind (ArrayJs elemDesc n s) h buffer baseOffset = Inl TypeError"
| "bind (StructTs totalSize flds) h buffer baseOffset =
     (if \<not> buffer < length (buffers h) then Inl TypeError
      else case bind_ts flds (h\<lparr>instances := Suc (instances h)\<rparr>) buffer baseOffset [] of
             Inl e \<Rightarrow> Inl e
           | Inr (own, h') \<Rightarrow> Inr (Ctor (instances h) buffer baseOffset flds own, h'))"
| "bind (ArrayTs structDesc n) h buffer baseOffset =
     (case elems structDesc n 0 h buffer baseOffset [] of
        Inl e \<Rightarrow> Inl e
      | Inr (arr, h') \<Rightarrow> Inr (Arr (Some buffer) arr, h'))"
| "bind_js [] h buffer baseOffset inst = Inr (inst, h)"
| "bind_js (Scalar name desc fo # flds) h buffer baseOffset inst =
     bind_js flds h buffer baseOffset
       (inst @ [(name, Acc (Accessor buffer desc (plus_n baseOffset fo)))])"
| "bind_js (Vector name elem n fo # flds) h buffer baseOffset inst =
     (case new_Typed h elem buffer (plus_n baseOffset fo) n of
        Inl e \<Rightarrow> Inl e
      | Inr (ta, h') \<Rightarrow> bind_js flds h' buffer baseOffset (inst @ [(name, Vec (Window ta n))]))"
| "bind_js (Struct name desc fo # flds) h buffer baseOffset inst =
     (case bind desc h buffer (plus_n baseOffset fo) of
        Inl e \<Rightarrow> Inl e
      | Inr (v, h') \<Rightarrow> bind_js flds h' buffer baseOffset (inst @ [(name, Own v)]))"
| "bind_js (Array name elemDesc None fo # flds) h buffer baseOffset inst =
     bind_js flds h buffer baseOffset (inst @ [(name, Own (Arr None []))])"
| "bind_js (Array name elemDesc (Some n) fo # flds) h buffer baseOffset inst =
     (case elems elemDesc n 0 h buffer (plus_n baseOffset fo) [] of
        Inl e \<Rightarrow> Inl e
      | Inr (arr, h') \<Rightarrow> bind_js flds h' buffer baseOffset (inst @ [(name, Own (Arr None arr))]))"
| "bind_ts [] h buffer baseOffset own = Inr (own, h)"
| "bind_ts (Scalar name desc fo # flds) h buffer baseOffset own =
     bind_ts flds h buffer baseOffset own"
| "bind_ts (Vector name elem n fo # flds) h buffer baseOffset own =
     bind_ts flds h buffer baseOffset own"
| "bind_ts (Struct name desc fo # flds) h buffer baseOffset own =
     (case bind desc h buffer (plus_n baseOffset fo) of
        Inl e \<Rightarrow> Inl e
      | Inr (v, h') \<Rightarrow> bind_ts flds h' buffer baseOffset (own @ [(name, v)]))"
| "bind_ts (Array name elemDesc None fo # flds) h buffer baseOffset own =
     (if \<not> has_create elemDesc then Inl (Error ''c.array: first arg must be a StructDescriptor'')
      else Inl (Error ''c.array: length must be a positive integer''))"
| "bind_ts (Array name elemDesc (Some n) fo # flds) h buffer baseOffset own =
     (if \<not> has_create elemDesc then Inl (Error ''c.array: first arg must be a StructDescriptor'')
      else if n = 0 then Inl (Error ''c.array: length must be a positive integer'')
      else case elems elemDesc n 0 h buffer (plus_n baseOffset fo) [] of
             Inl e \<Rightarrow> Inl e
           | Inr (arr, h') \<Rightarrow>
               bind_ts flds h' buffer baseOffset (own @ [(name, Arr (Some buffer) arr)]))"
| "elems d 0 i h buffer baseOffset arr = Inr (arr, h)"
| "elems d (Suc k) i h buffer baseOffset arr =
     (case bind d h buffer (plus_n baseOffset (times_n (Num i) (size_d d))) of
        Inl e \<Rightarrow> Inl e
      | Inr (v, h') \<Rightarrow> elems d k (Suc i) h' buffer baseOffset (arr @ [v]))"
  by pat_completeness auto

termination
  by (relation "inv_image (less_than <*lex*> less_than)
        (\<lambda>x. case x of
           Inl (Inl (d, h, b, base)) \<Rightarrow> (size d, 0)
         | Inl (Inr (fs, h, b, base, acc)) \<Rightarrow> (size_list size fs, 0)
         | Inr (Inl (fs, h, b, base, acc)) \<Rightarrow> (size_list size fs, 0)
         | Inr (Inr (d, k, i, h, b, base, acc)) \<Rightarrow> (size d, Suc k))") auto

text \<open>
  \<^verbatim>\<open>d.create(buffer, baseOffset)\<close> with optional arguments: an omitted buffer is
  \<^verbatim>\<open>new ArrayBuffer(d.size)\<close>, an omitted offset is 0.
\<close>

definition create :: "descriptor \<Rightarrow> heap \<Rightarrow> nat option \<Rightarrow> number option \<Rightarrow> error + (view \<times> heap)" where
  "create d h buffer baseOffset =
    (if \<not> has_create d then Inl TypeError
     else
       let (b, h') = (case buffer of None \<Rightarrow> ArrayBuffer h (size_d d) | Some b \<Rightarrow> (b, h));
           base = (case baseOffset of None \<Rightarrow> Num 0 | Some x \<Rightarrow> x)
       in bind d h' b base)"

section \<open>c.struct of index.ts: the layout pass\<close>

fun isArray :: "view \<Rightarrow> bool" where
  "isArray (Arr b vs) = True"
| "isArray v = False"

text \<open>
  One iteration of the loop of \<^verbatim>\<open>index.ts\<close>, lines 285 to 341. For a value that is no
  JavaScript array the first test is
  \<^verbatim>\<open>type.size && typeof type.create === "function" && Array.isArray(type.create())\<close>:
  it calls \<^verbatim>\<open>create\<close> with no argument and throws what the call throws. The instance is
  thrown away; it is created here in the empty heap, since whether the call returns a
  JavaScript array does not depend on the objects that exist already. The entry of the array
  branch takes \<^verbatim>\<open>type\<close> itself as \<^verbatim>\<open>elemDesc\<close> and \<^verbatim>\<open>type.length\<close> as length.
\<close>

fun entry_ts :: "string \<Rightarrow> jsval \<Rightarrow> number \<Rightarrow> error + (field \<times> number)" where
  "entry_ts name (List []) offset = Inl TypeError"
| "entry_ts name (List (Val Undefined # rest)) offset = Inl TypeError"
| "entry_ts name (List (Val Null # rest)) offset = Inl TypeError"
| "entry_ts name (List (elem # rest)) offset =
     Inr (Vector name elem (length (elem # rest)) offset,
          plus_n offset (times_n (size_v elem) (Num (length (elem # rest)))))"
| "entry_ts name (Val Undefined) offset = Inl TypeError"
| "entry_ts name (Val Null) offset = Inl TypeError"
| "entry_ts name (Val v) offset = Inl (unknown_field_type name)"
| "entry_ts name (Prim type) offset =
     Inr (Scalar name type offset, plus_n offset (Num (size_p type)))"
| "entry_ts name (Desc type) offset =
     (if truthy (size_d type) \<and> has_create type
      then (case create type empty_heap None None of
              Inl e \<Rightarrow> Inl e
            | Inr (v, h) \<Rightarrow>
                if isArray v
                then Inr (Array name type (length_d type) offset,
                          plus_n offset (times_u (size_d type) (length_d type)))
                else Inr (Struct name type offset, plus_n offset (size_d type)))
      else Inl (unknown_field_type name))"

fun loop_ts :: "(string \<times> jsval) list \<Rightarrow> number \<Rightarrow> field list \<Rightarrow> error + (field list \<times> number)" where
  "loop_ts [] offset flds = Inr (flds, offset)"
| "loop_ts ((name, type) # schema) offset flds =
     (case entry_ts name type offset of
        Inl e \<Rightarrow> Inl e
      | Inr (entry, offset') \<Rightarrow> loop_ts schema offset' (flds @ [entry]))"

definition struct_ts :: "(string \<times> jsval) list \<Rightarrow> error + descriptor" where
  "struct_ts schema =
    (case loop_ts (Object_entries schema) (Num 0) [] of
       Inl e \<Rightarrow> Inl e
     | Inr (flds, totalSize) \<Rightarrow> Inr (StructTs totalSize flds))"

section \<open>Reading and writing fields\<close>

text \<open>
  The properties of a view by name. Those of an instance of \<^verbatim>\<open>Ctor\<close> are the accessors that
  \<^verbatim>\<open>index.ts\<close>, lines 374 to 425, defines on the prototype for the scalar and vector fields,
  which read \<^verbatim>\<open>this.buffer\<close> and \<^verbatim>\<open>this.baseOffset + f.offset\<close> at each access, and the own
  properties of the instance.
\<close>

fun member_ts :: "nat \<Rightarrow> nat \<Rightarrow> number \<Rightarrow> (string \<times> view) list \<Rightarrow> field \<Rightarrow> (string \<times> member) list" where
  "member_ts i b base own (Scalar name desc fo) = [(name, Acc (Accessor b desc (plus_n base fo)))]"
| "member_ts i b base own (Vector name elem n fo) =
     [(name, Vec (Lazy i name b elem (plus_n base fo) n))]"
| "member_ts i b base own f =
     (case map_of own (name_f f) of None \<Rightarrow> [] | Some v \<Rightarrow> [(name_f f, Own v)])"

fun members :: "view \<Rightarrow> (string \<times> member) list" where
  "members (Inst b ms) = ms"
| "members (Ctor i b base flds own) = concat (map (member_ts i b base own) flds)"
| "members (Arr b vs) = []"

text \<open>The \<^verbatim>\<open>buffer\<close> property of a view; a plain array has none.\<close>

fun buffer_of :: "view \<Rightarrow> nat option" where
  "buffer_of (Inst b ms) = Some b"
| "buffer_of (Ctor i b base flds own) = Some b"
| "buffer_of (Arr b vs) = b"

text \<open>The getter and the setter of a scalar field.\<close>

fun scalar_get :: "ieee \<Rightarrow> heap \<Rightarrow> accessor \<Rightarrow> error + value" where
  "scalar_get K h (Accessor b desc pos) = DataView_get K h b (getter desc) pos"

fun scalar_set :: "ieee \<Rightarrow> heap \<Rightarrow> accessor \<Rightarrow> value \<Rightarrow> error + heap" where
  "scalar_set K h (Accessor b desc pos) v = DataView_set K h b (setter desc) pos v"

text \<open>
  What the getter of a vector field returns: the typed array \<open>TA ta\<close>, or the DataView
  \<open>DV i\<close> of instance \<open>i\<close>.

  In \<^verbatim>\<open>index.js\<close> the getter returns the typed array made by \<^verbatim>\<open>create\<close>. In \<^verbatim>\<open>index.ts\<close> the
  getter tests whether the instance has an own property \<^verbatim>\<open>"__" + name\<close>; when it has none, it
  makes the typed array and stores it there; it returns the value of that property. The own
  properties of an instance are \<^verbatim>\<open>buffer\<close>, \<^verbatim>\<open>baseOffset\<close> and \<^verbatim>\<open>__view\<close>, which holds its
  DataView, those of its struct and array fields, and the ones stored by the getters. For
  the field name \<^verbatim>\<open>view\<close> the property \<^verbatim>\<open>__view\<close> exists from the start, and the getter returns
  the DataView; by the assumption on the names of fields it is the only such property that
  exists before a getter stores one.
\<close>

datatype got = TA nat | DV nat

fun vector_get :: "heap \<Rightarrow> vec \<Rightarrow> error + (got \<times> heap)" where
  "vector_get h (Window ta n) = Inr (TA ta, h)"
| "vector_get h (Lazy i name b elem pos n) =
     (if ''__'' @ name = ''__view'' then Inr (DV i, h)
      else case map_of (cache h) (i, ''__'' @ name) of
        Some ta \<Rightarrow> Inr (TA ta, h)
      | None \<Rightarrow>
         (case new_Typed h elem b pos n of
            Inl e \<Rightarrow> Inl e
          | Inr (ta, h') \<Rightarrow> Inr (TA ta, h'\<lparr>cache := ((i, ''__'' @ name), ta) # cache h'\<rparr>)))"

text \<open>\<^verbatim>\<open>arr[i]\<close> of the source of an assignment: \<^verbatim>\<open>undefined\<close> beyond its length.\<close>

definition at_arr :: "value list \<Rightarrow> nat \<Rightarrow> value" where
  "at_arr arr i = (if i < length arr then arr ! i else Undefined)"

text \<open>
  \<^verbatim>\<open>for (let i = 0; i < length; i++) ta[i] = arr[i]\<close>, from index \<open>i\<close> with \<open>k\<close> iterations
  to go.
\<close>

fun copy :: "ieee \<Rightarrow> heap \<Rightarrow> nat \<Rightarrow> value list \<Rightarrow> nat \<Rightarrow> nat \<Rightarrow> error + heap" where
  "copy K h ta arr 0 i = Inr h"
| "copy K h ta arr (Suc k) i =
     (case ta_set K h ta i (at_arr arr i) of
        Inl e \<Rightarrow> Inl e
      | Inr h' \<Rightarrow> copy K h' ta arr k (Suc i))"

text \<open>
  The same loop when \<^verbatim>\<open>ta\<close> is the DataView of instance \<open>j\<close>: \<^verbatim>\<open>ta[i] = arr[i]\<close> sets an
  ordinary property of the object and writes no byte.
\<close>

fun copy_dv :: "heap \<Rightarrow> nat \<Rightarrow> value list \<Rightarrow> nat \<Rightarrow> nat \<Rightarrow> heap" where
  "copy_dv h j arr 0 i = h"
| "copy_dv h j arr (Suc k) i =
     copy_dv (h\<lparr>expando := ((j, i), at_arr arr i) # expando h\<rparr>) j arr k (Suc i)"

fun length_v :: "vec \<Rightarrow> nat" where
  "length_v (Window ta n) = n"
| "length_v (Lazy i name b elem pos n) = n"

text \<open>The setter of a vector field: what the getter returns, then the loop.\<close>

definition vector_set :: "ieee \<Rightarrow> heap \<Rightarrow> vec \<Rightarrow> value list \<Rightarrow> error + heap" where
  "vector_set K h m arr =
    (case vector_get h m of
       Inl e \<Rightarrow> Inl e
     | Inr (TA ta, h') \<Rightarrow> copy K h' ta arr (length_v m) 0
     | Inr (DV j, h') \<Rightarrow> Inr (copy_dv h' j arr (length_v m) 0))"

text \<open>
  \<^verbatim>\<open>view.field[k]\<close>: the getter of the vector field, then element \<open>k\<close> of what it returns; on
  a DataView that is the property \<open>k\<close>, where one was set.
\<close>

definition vector_elem :: "ieee \<Rightarrow> heap \<Rightarrow> vec \<Rightarrow> nat \<Rightarrow> error + value" where
  "vector_elem K h m k =
    (case vector_get h m of
       Inl e \<Rightarrow> Inl e
     | Inr (TA ta, h') \<Rightarrow> Inr (ta_get K h' ta k)
     | Inr (DV j, h') \<Rightarrow>
         Inr (case map_of (expando h') (j, k) of None \<Rightarrow> Undefined | Some v \<Rightarrow> v))"

section \<open>The c helpers used below\<close>

text \<open>\<^verbatim>\<open>c.float()\<close>, \<^verbatim>\<open>c.float3()\<close> and \<^verbatim>\<open>c.uint()\<close> of both modules; \<^verbatim>\<open>c.uint64()\<close> of \<^verbatim>\<open>index.ts\<close>.\<close>

definition float_js :: jsval where
  "float_js = Prim (p_get p_js ''float32'')"

definition float3_js :: jsval where
  "float3_js = List [Prim (p_get p_js ''float32''), Prim (p_get p_js ''float32''),
                     Prim (p_get p_js ''float32'')]"


definition float_ts :: jsval where
  "float_ts = Prim (p_get p_ts ''float32'')"

definition float3_ts :: jsval where
  "float3_ts = List [Prim (p_get p_ts ''float32''), Prim (p_get p_ts ''float32''),
                     Prim (p_get p_ts ''float32'')]"

definition uint_ts :: jsval where
  "uint_ts = Prim (p_get p_ts ''uint32'')"

definition uint64_ts :: jsval where
  "uint64_ts = Prim (p_get p_ts ''uint64'')"

text \<open>
  The struct of the tests, \<^verbatim>\<open>c.struct({ color: c.float3() })\<close>, as each module returns it.
\<close>

definition Item_js :: descriptor where
  "Item_js = StructJs (Num 12) [Vector ''color'' (Prim (p_get p_js ''float32'')) 3 (Num 0)]"

definition Item_ts :: descriptor where
  "Item_ts = StructTs (Num 12) [Vector ''color'' (Prim (p_get p_ts ''float32'')) 3 (Num 0)]"

text \<open>
  The views and the heap of \<^verbatim>\<open>c.array(Item, 3).create()\<close> of \<^verbatim>\<open>index.ts\<close> from the empty heap:
  element \<open>i\<close> is an instance of \<^verbatim>\<open>Ctor\<close> at byte \<open>p\<close>, and its field \<^verbatim>\<open>color\<close> a lazy window.
  In \<^verbatim>\<open>index.js\<close> the array is a field of \<^verbatim>\<open>c.struct({ items: c.array(Item, 3) })\<close>; the
  element whose field \<^verbatim>\<open>color\<close> is typed array \<open>ta\<close>, and the heap of its \<^verbatim>\<open>create()\<close>.
\<close>

definition item_ts :: "nat \<Rightarrow> nat \<Rightarrow> view" where
  "item_ts i p = Ctor i 0 (Num p) [Vector ''color'' (Prim (p_get p_ts ''float32'')) 3 (Num 0)] []"

definition color_ts :: "nat \<Rightarrow> nat \<Rightarrow> vec" where
  "color_ts i p = Lazy i ''color'' 0 (Prim (p_get p_ts ''float32'')) (Num p) 3"

definition heap_ts :: heap where
  "heap_ts = empty_heap\<lparr>buffers := [replicate 36 0], instances := 3\<rparr>"

definition Items_js :: descriptor where
  "Items_js = StructJs (Num 36) [Array ''items'' Item_js (Some 3) (Num 0)]"

definition item_js :: "nat \<Rightarrow> view" where
  "item_js ta = Inst 0 [(''color'', Vec (Window ta 3))]"

definition heap_js :: heap where
  "heap_js = empty_heap\<lparr>buffers := [replicate 36 0],
     typed := [\<lparr>ta_type = Float32Array, ta_buffer = 0, byteOffset = 0, ta_length = 3\<rparr>,
               \<lparr>ta_type = Float32Array, ta_buffer = 0, byteOffset = 12, ta_length = 3\<rparr>,
               \<lparr>ta_type = Float32Array, ta_buffer = 0, byteOffset = 24, ta_length = 3\<rparr>]\<rparr>"

text \<open>
  \<^verbatim>\<open>c.struct({ n: c.uint(), inner: c.struct({ id: c.uint() }) })\<close> of \<^verbatim>\<open>index.ts\<close> and the view
  of its \<^verbatim>\<open>create()\<close> from the empty heap.
\<close>

definition Outer_ts :: descriptor where
  "Outer_ts = StructTs (Num 8)
     [Scalar ''n'' (p_get p_ts ''uint32'') (Num 0),
      Struct ''inner'' (StructTs (Num 4) [Scalar ''id'' (p_get p_ts ''uint32'') (Num 0)]) (Num 4)]"

definition outer_ts :: view where
  "outer_ts = Ctor 0 0 (Num 0)
     [Scalar ''n'' (p_get p_ts ''uint32'') (Num 0),
      Struct ''inner'' (StructTs (Num 4) [Scalar ''id'' (p_get p_ts ''uint32'') (Num 0)]) (Num 4)]
     [(''inner'', Ctor 1 0 (Num 4) [Scalar ''id'' (p_get p_ts ''uint32'') (Num 0)] [])]"

text \<open>
  \<^verbatim>\<open>c.uint3()\<close> of both modules, and \<^verbatim>\<open>c.struct({ view: c.uint3() })\<close> as each module returns it.
\<close>

definition uint3_js :: jsval where
  "uint3_js = List [Prim (p_get p_js ''uint32''), Prim (p_get p_js ''uint32''),
                    Prim (p_get p_js ''uint32'')]"

definition uint3_ts :: jsval where
  "uint3_ts = List [Prim (p_get p_ts ''uint32''), Prim (p_get p_ts ''uint32''),
                    Prim (p_get p_ts ''uint32'')]"

definition View_js :: descriptor where
  "View_js = StructJs (Num 12) [Vector ''view'' (Prim (p_get p_js ''uint32'')) 3 (Num 0)]"

definition View_ts :: descriptor where
  "View_ts = StructTs (Num 12) [Vector ''view'' (Prim (p_get p_ts ''uint32'')) 3 (Num 0)]"

text \<open>\<^verbatim>\<open>c.struct({ x: c.float() })\<close>, as each module returns it.\<close>

definition Elem_js :: descriptor where
  "Elem_js = StructJs (Num 4) [Scalar ''x'' (p_get p_js ''float32'') (Num 0)]"

definition Elem_ts :: descriptor where
  "Elem_ts = StructTs (Num 4) [Scalar ''x'' (p_get p_ts ''float32'') (Num 0)]"

text \<open>
  A value for the parameter of the IEEE 754 encodings, for the closed examples below that
  write no floating-point value or hold for every encoding.
\<close>

definition any_ieee :: ieee where
  "any_ieee = \<lparr>f32_enc = (\<lambda>v. 0), f32_dec = (\<lambda>w. NaNv), f64_enc = (\<lambda>v. 0), f64_dec = (\<lambda>w. NaNv)\<rparr>"

section \<open>Notions of the specification\<close>

text \<open>
  The size of a field by the rules of the data model: a scalar has the byte width of its
  primitive, a vector the byte width times the length, a nested struct the total size of
  its descriptor, an array of struct the size of the element descriptor times the length.
\<close>

fun size_f :: "field \<Rightarrow> number" where
  "size_f (Scalar name desc off) = Num (size_p desc)"
| "size_f (Vector name elem n off) = times_n (size_v elem) (Num n)"
| "size_f (Struct name desc off) = size_d desc"
| "size_f (Array name elemDesc n off) = times_u (size_d elemDesc) n"

text \<open>
  The offsets of a dense layout that starts at \<open>offset\<close>: each field lies where the one
  before it ends.
\<close>

fun packed :: "number \<Rightarrow> field list \<Rightarrow> bool" where
  "packed offset [] = True"
| "packed offset (f # flds) = (offset_f f = offset \<and> packed (plus_n offset (size_f f)) flds)"

text \<open>The sum of the sizes of the fields, from \<open>offset\<close> on.\<close>

fun total :: "number \<Rightarrow> field list \<Rightarrow> number" where
  "total offset [] = offset"
| "total offset (f # flds) = total (plus_n offset (size_f f)) flds"

text \<open>
  An array descriptor as \<^verbatim>\<open>c.array\<close> of \<^verbatim>\<open>index.js\<close> makes it: its size is the size of the
  element descriptor times the length.
\<close>

fun made_by_array_js :: "jsval \<Rightarrow> bool" where
  "made_by_array_js (Desc (ArrayJs e n s)) = (s = times_n (size_d e) (Num n))"
| "made_by_array_js t = True"

text \<open>
  Three kinds of field values, for \<^verbatim>\<open>c.struct\<close> of \<^verbatim>\<open>index.js\<close>.
  \<^item> \<open>accepted_js\<close>: a primitive descriptor; a JavaScript array whose element 0 is neither
    \<^verbatim>\<open>undefined\<close> nor \<^verbatim>\<open>null\<close>, whatever its elements are; an array descriptor; a descriptor
    with a \<^verbatim>\<open>create\<close> whose size is a number other than 0.
  \<^item> \<open>no_property_js\<close>: the values on which a property read throws, \<^verbatim>\<open>undefined\<close> and \<^verbatim>\<open>null\<close>,
    and a JavaScript array whose element 0 is one of them or which is empty.
  \<^item> \<open>primitive_js\<close>: a Number or a BigInt.
  A descriptor with a \<^verbatim>\<open>create\<close> whose size is 0 or \<^verbatim>\<open>NaN\<close> is of none of the three.
\<close>

fun accepted_js :: "jsval \<Rightarrow> bool" where
  "accepted_js (Prim p) = True"
| "accepted_js (List []) = False"
| "accepted_js (List (Val Undefined # rest)) = False"
| "accepted_js (List (Val Null # rest)) = False"
| "accepted_js (List (elem # rest)) = True"
| "accepted_js (Desc d) = (kind_is_array d \<or> truthy (size_d d) \<and> has_create d)"
| "accepted_js (Val v) = False"

fun no_property_js :: "jsval \<Rightarrow> bool" where
  "no_property_js (Val Undefined) = True"
| "no_property_js (Val Null) = True"
| "no_property_js (List []) = True"
| "no_property_js (List (Val Undefined # rest)) = True"
| "no_property_js (List (Val Null # rest)) = True"
| "no_property_js t = False"

fun primitive_js :: "jsval \<Rightarrow> bool" where
  "primitive_js (Val Undefined) = False"
| "primitive_js (Val Null) = False"
| "primitive_js (Val v) = True"
| "primitive_js t = False"


text \<open>
  Every reference to a buffer in a view is a reference to buffer \<open>b\<close>: its \<^verbatim>\<open>buffer\<close>
  property, the DataView of its accessors, the buffer of its typed arrays (which are those
  of the list \<open>T\<close> of typed arrays), and so for every view below it.
\<close>

fun shares :: "typed_array list \<Rightarrow> nat \<Rightarrow> view \<Rightarrow> bool"
and shares_m :: "typed_array list \<Rightarrow> nat \<Rightarrow> member \<Rightarrow> bool" where
  "shares T b (Inst b' ms) = (b' = b \<and> list_all (\<lambda>(name, m). shares_m T b m) ms)"
| "shares T b (Ctor i b' base flds own) = (b' = b \<and> list_all (\<lambda>(name, v). shares T b v) own)"
| "shares T b (Arr b' vs) = ((b' = None \<or> b' = Some b) \<and> list_all (shares T b) vs)"
| "shares_m T b (Acc (Accessor b' desc pos)) = (b' = b)"
| "shares_m T b (Vec (Window ta n)) = (ta < length T \<and> ta_buffer (T ! ta) = b)"
| "shares_m T b (Vec (Lazy i name b' elem pos n)) = (b' = b)"
| "shares_m T b (Own v) = shares T b v"

text \<open>
  Heap \<open>h'\<close> has the buffers and the cached typed arrays of \<open>h\<close> and its typed arrays, with
  more typed arrays after them, and at least its instances.
\<close>

definition extends :: "heap \<Rightarrow> heap \<Rightarrow> bool" where
  "extends h h' \<longleftrightarrow> buffers h' = buffers h \<and> cache h' = cache h \<and> (\<exists>T. typed h' = typed h @ T)
     \<and> instances h \<le> instances h'"

text \<open>A typed array lies within its buffer.\<close>

definition fits :: "heap \<Rightarrow> typed_array \<Rightarrow> bool" where
  "fits h w \<longleftrightarrow> ta_buffer w < length (buffers h)
     \<and> byteOffset w + ta_length w * BYTES_PER_ELEMENT (ta_type w) \<le> byteLength h (ta_buffer w)"

text \<open>
  The window of a vector field, that is the typed array that the field stands for. In
  \<^verbatim>\<open>index.js\<close> it is the typed array of the closure. In \<^verbatim>\<open>index.ts\<close> it is the typed array
  that the getter makes of \<^verbatim>\<open>this.buffer\<close>, \<^verbatim>\<open>this.baseOffset + f.offset\<close> and \<^verbatim>\<open>f.length\<close>;
  there is none when the element has no \<^verbatim>\<open>arrayType\<close> and none for the field name \<^verbatim>\<open>view\<close>.
\<close>

fun window :: "heap \<Rightarrow> vec \<Rightarrow> typed_array option" where
  "window h (Window ta n) =
     (if ta < length (typed h) \<and> ta_length (typed h ! ta) = n then Some (typed h ! ta) else None)"
| "window h (Lazy i name b elem pos n) =
     (if name = ''view'' then None
      else case arrayType_v elem of
             None \<Rightarrow> None
           | Some t \<Rightarrow> Some \<lparr>ta_type = t, ta_buffer = b, byteOffset = ToIndex pos, ta_length = n\<rparr>)"

text \<open>The own property in which the getter of a vector field of \<^verbatim>\<open>index.ts\<close> keeps the typed array.\<close>

fun slot :: "vec \<Rightarrow> (nat \<times> string) option" where
  "slot (Window ta n) = None"
| "slot (Lazy i name b elem pos n) = Some (i, ''__'' @ name)"

text \<open>
  A vector field is intact in a heap when it has a window, the window lies within its
  buffer and starts at a multiple of the element size, and the typed array that the
  instance keeps for the field, where it keeps one, is that window.
\<close>

definition intact :: "heap \<Rightarrow> vec \<Rightarrow> bool" where
  "intact h m \<longleftrightarrow>
    (case window h m of
       None \<Rightarrow> False
     | Some w \<Rightarrow>
         fits h w \<and> byteOffset w mod BYTES_PER_ELEMENT (ta_type w) = 0
         \<and> (case slot m of
              None \<Rightarrow> True
            | Some s \<Rightarrow> (case map_of (cache h) s of
                          None \<Rightarrow> True
                        | Some ta \<Rightarrow> ta < length (typed h) \<and> typed h ! ta = w)))"

text \<open>
  The bytes that a field reads and writes: the buffer, the numeric kind and the position of
  the first byte, for the getter and the setter of a scalar field and for element \<open>k\<close> of a
  typed array.
\<close>

fun place_get :: "accessor \<Rightarrow> nat \<times> arrayType \<times> nat" where
  "place_get (Accessor b desc pos) = (b, getter_kind (getter desc), ToIndex pos)"

fun place_set :: "accessor \<Rightarrow> nat \<times> arrayType \<times> nat" where
  "place_set (Accessor b desc pos) = (b, setter_kind (setter desc), ToIndex pos)"

definition place :: "typed_array \<Rightarrow> nat \<Rightarrow> nat \<times> arrayType \<times> nat" where
  "place w k = (ta_buffer w, ta_type w, byteOffset w + k * BYTES_PER_ELEMENT (ta_type w))"

text \<open>
  All the views of a tree: the view itself, the views held by its properties, and so on.
\<close>

fun views :: "view \<Rightarrow> view list"
and views_m :: "member \<Rightarrow> view list" where
  "views (Inst b ms) = Inst b ms # concat (map (\<lambda>(name, m). views_m m) ms)"
| "views (Ctor i b base flds own) = Ctor i b base flds own # concat (map (\<lambda>(name, v). views v) own)"
| "views (Arr b vs) = Arr b vs # concat (map views vs)"
| "views_m (Own v) = views v"
| "views_m m = []"

text \<open>
  A view is anchored to buffer \<open>b\<close> in a heap: as for \<open>shares\<close>, every reference to a buffer in
  the view and in the views below it is to \<open>b\<close>; the typed arrays of its vector fields are
  intact; and its instances of \<^verbatim>\<open>Ctor\<close> are instances of the heap, numbered from \<open>lo\<close>.
\<close>

fun anchored :: "nat \<Rightarrow> heap \<Rightarrow> nat \<Rightarrow> view \<Rightarrow> bool"
and anchored_m :: "nat \<Rightarrow> heap \<Rightarrow> nat \<Rightarrow> member \<Rightarrow> bool" where
  "anchored lo h b (Inst b' ms) = (b' = b \<and> list_all (\<lambda>(name, m). anchored_m lo h b m) ms)"
| "anchored lo h b (Ctor i b' base flds own) =
     (b' = b \<and> lo \<le> i \<and> i < instances h \<and> list_all (\<lambda>(name, v). anchored lo h b v) own)"
| "anchored lo h b (Arr b' vs) = ((b' = None \<or> b' = Some b) \<and> list_all (anchored lo h b) vs)"
| "anchored_m lo h b (Acc (Accessor b' desc pos)) = (b' = b)"
| "anchored_m lo h b (Vec (Window ta n)) =
     (intact h (Window ta n) \<and> ta_buffer (typed h ! ta) = b)"
| "anchored_m lo h b (Vec (Lazy i name b' elem pos n)) = (b' = b \<and> lo \<le> i \<and> i < instances h)"
| "anchored_m lo h b (Own v) = anchored lo h b v"

text \<open>The typed arrays that a heap keeps for instances are kept for instances below \<open>lo\<close>.\<close>

definition kept_below :: "nat \<Rightarrow> heap \<Rightarrow> bool" where
  "kept_below lo h \<longleftrightarrow> (\<forall>((i, key), ta) \<in> set (cache h). i < lo)"

text \<open>
  The native conversion of a value by a kind, in the words of the platform: a Number is
  truncated towards zero and wrapped into the range of an integer kind of 16 or 32 bits
  (\<^verbatim>\<open>NaN\<close> and the infinities become 0), or rounded to the nearest binary32 or binary64 by a
  floating-point kind; a BigInt is wrapped into the range of a 64-bit integer kind. A
  Number for a 64-bit integer kind and a BigInt for any other kind are a TypeError.
\<close>

definition wrap_u :: "nat \<Rightarrow> int \<Rightarrow> int" where
  "wrap_u w z = z mod 2 ^ w"

definition wrap_s :: "nat \<Rightarrow> int \<Rightarrow> int" where
  "wrap_s w z = (z + 2 ^ (w - 1)) mod 2 ^ w - 2 ^ (w - 1)"

fun to_number :: "value \<Rightarrow> value" where
  "to_number Undefined = NaNv"
| "to_number Null = Number 0"
| "to_number v = v"

fun to_int :: "value \<Rightarrow> int" where
  "to_int (Number q) = trunc q"
| "to_int v = 0"

fun native_conversion :: "ieee \<Rightarrow> arrayType \<Rightarrow> value \<Rightarrow> error + value" where
  "native_conversion K BigUint64Array (BigInt i) = Inr (BigInt (wrap_u 64 i))"
| "native_conversion K BigUint64Array v = Inl TypeError"
| "native_conversion K BigInt64Array (BigInt i) = Inr (BigInt (wrap_s 64 i))"
| "native_conversion K BigInt64Array v = Inl TypeError"
| "native_conversion K t (BigInt i) = Inl TypeError"
| "native_conversion K Float32Array v = Inr (f32_dec K (f32_enc K (to_number v)))"
| "native_conversion K Float64Array v = Inr (f64_dec K (f64_enc K (to_number v)))"
| "native_conversion K Uint16Array v = Inr (Number (of_int (wrap_u 16 (to_int (to_number v)))))"
| "native_conversion K Uint32Array v = Inr (Number (of_int (wrap_u 32 (to_int (to_number v)))))"
| "native_conversion K Int16Array v = Inr (Number (of_int (wrap_s 16 (to_int (to_number v)))))"
| "native_conversion K Int32Array v = Inr (Number (of_int (wrap_s 32 (to_int (to_number v)))))"

section \<open>The order of Object.entries\<close>

lemmas entries_simps = Object_entries_def array_index_def digit_def

lemma Object_entries_single: "Object_entries [(name, t)] = [(name, t)]"
  by (simp add: Object_entries_def)

lemma Object_entries_names:
  "list_all (\<lambda>(k, v). array_index k = None) obj \<Longrightarrow> Object_entries obj = obj"
proof -
  assume a: "list_all (\<lambda>(k, v). array_index k = None) obj"
  then have "filter (\<lambda>(k, v). array_index k \<noteq> None) obj = []"
    by (auto simp: filter_empty_conv list_all_iff)
  moreover from a have "filter (\<lambda>(k, v). array_index k = None) obj = obj"
    by (auto simp: filter_id_conv list_all_iff)
  ultimately show ?thesis by (simp add: Object_entries_def)
qed

lemma set_Object_entries: "set (Object_entries obj) = set obj"
  by (auto simp: Object_entries_def)

lemma list_all_Object_entries: "list_all P (Object_entries obj) = list_all P obj"
  by (simp add: list_all_iff set_Object_entries)

lemma list_all2_filter:
  assumes "list_all2 R xs ys" and "\<And>x y. R x y \<Longrightarrow> P x = P' y"
  shows "list_all2 R (filter P xs) (filter P' ys)"
  using assms(1)
  by (induction rule: list_all2_induct) (auto dest: assms(2))

lemma list_all2_insort_key:
  assumes "list_all2 R xs ys" and "R x y" and "\<And>x y. R x y \<Longrightarrow> f x = f' y"
  shows "list_all2 R (insort_key f x xs) (insort_key f' y ys)"
  using assms(1)
proof (induction rule: list_all2_induct)
  case Nil
  then show ?case using assms(2) by simp
next
  case (Cons a xs b ys)
  then show ?case using assms(2) assms(3) [OF assms(2)] assms(3) [of a b] by simp
qed

lemma list_all2_sort_key:
  assumes "list_all2 R xs ys" and "\<And>x y. R x y \<Longrightarrow> f x = f' y"
  shows "list_all2 R (sort_key f xs) (sort_key f' ys)"
  using assms(1)
  by (induction rule: list_all2_induct) (auto intro: list_all2_insort_key assms(2))

lemma list_all2_Object_entries:
  assumes "list_all2 (\<lambda>(k, v) (k', v'). k = k' \<and> R k v v') xs ys"
  shows "list_all2 (\<lambda>(k, v) (k', v'). k = k' \<and> R k v v') (Object_entries xs) (Object_entries ys)"
  unfolding Object_entries_def
  by (intro list_all2_appendI list_all2_sort_key list_all2_filter assms) auto

section \<open>The primitive registry\<close>

text \<open>
  In the registry of \<^verbatim>\<open>index.ts\<close> every kind has the byte width of its typed array, and its
  getter and setter are those of the same kind.
\<close>

lemma p_ts_widths:
  "\<forall>(name, d) \<in> set p_ts.
     size_p d = BYTES_PER_ELEMENT (arrayType d)
     \<and> getter_kind (getter d) = arrayType d \<and> setter_kind (setter d) = arrayType d"
  by (simp add: p_ts_def BYTES_PER_ELEMENT_def)

text \<open>
  C4. Every primitive kind has the byte width implied by its bit width; float64 has byte
  width 8, so a scalar float64 field advances the running offset by 8. The registry of
  \<^verbatim>\<open>index.js\<close> gives \<^verbatim>\<open>float64\<close> the size 4, although one element of a \<^verbatim>\<open>Float64Array\<close> and one
  \<^verbatim>\<open>setFloat64\<close> take 8 bytes, as the registry of \<^verbatim>\<open>index.ts\<close> says: the field after a scalar
  float64 field is laid out 4 bytes behind it.
\<close>

theorem float64_js_width:
  "size_p (p_get p_js ''float64'') = 4
   \<and> BYTES_PER_ELEMENT (arrayType (p_get p_js ''float64'')) = 8
   \<and> size_p (p_get p_ts ''float64'') = 8
   \<and> struct_js [(''a'', Prim (p_get p_js ''float64'')), (''b'', Prim (p_get p_js ''float32''))]
       = Inr (StructJs (Num 8)
               [Scalar ''a'' (p_get p_js ''float64'') (Num 0),
                Scalar ''b'' (p_get p_js ''float32'') (Num 4)])"
  by (simp add: struct_js_def p_get_def p_js_def p_ts_def BYTES_PER_ELEMENT_def entries_simps)

section \<open>The views of one create share one buffer\<close>

lemma extends_refl: "extends h h"
  by (simp add: extends_def)

lemma extends_trans: "extends h h1 \<Longrightarrow> extends h1 h2 \<Longrightarrow> extends h h2"
  by (auto simp: extends_def)

lemma extends_instances: "extends (h\<lparr>instances := Suc (instances h)\<rparr>) h' \<Longrightarrow> extends h h'"
  by (simp add: extends_def)

lemma new_Typed_extends:
  "new_Typed h elem b off n = Inr (ta, h') \<Longrightarrow> extends h h'"
  by (auto simp: new_Typed_def TypedArray_def extends_def split: if_splits option.splits)

lemma new_Typed_window:
  "new_Typed h elem b off n = Inr (ta, h') \<Longrightarrow> ta < length (typed h') \<and> ta_buffer (typed h' ! ta) = b"
  by (auto simp: new_Typed_def TypedArray_def split: if_splits option.splits)

lemma shares_mono:
  "shares T b v \<Longrightarrow> shares (T @ T') b v"
  "shares_m T b m \<Longrightarrow> shares_m (T @ T') b m"
  by (induction T b v and T b m rule: shares_shares_m.induct) (auto simp: nth_append list_all_iff)

lemma shares_extends: "extends h h' \<Longrightarrow> shares (typed h) b v \<Longrightarrow> shares (typed h') b v"
  by (auto simp: extends_def shares_mono)

lemma shares_m_extends: "extends h h' \<Longrightarrow> shares_m (typed h) b m \<Longrightarrow> shares_m (typed h') b m"
  by (auto simp: extends_def shares_mono)

lemma bind_extends:
  "bind d h b base = Inr (v, h') \<Longrightarrow> extends h h'"
  "bind_js flds h b base inst = Inr (ms, h') \<Longrightarrow> extends h h'"
  "bind_ts flds h b base own = Inr (ow, h') \<Longrightarrow> extends h h'"
  "elems d k i h b base arr = Inr (vs, h') \<Longrightarrow> extends h h'"
proof (induction d h b base and flds h b base inst and flds h b base own and d k i h b base arr
       arbitrary: v h' and ms h' and ow h' and vs h'
       rule: bind_bind_js_bind_ts_elems.induct)
  case (1 totalSize flds h buffer baseOffset)
  then show ?case by (auto split: if_splits sum.splits)
next
  case (2 elemDesc n s h buffer baseOffset)
  then show ?case by simp
next
  case (3 totalSize flds h buffer baseOffset)
  then show ?case by (auto split: if_splits sum.splits dest: extends_instances)
next
  case (4 structDesc n h buffer baseOffset)
  then show ?case by (auto split: if_splits sum.splits)
next
  case (5 h buffer baseOffset inst)
  then show ?case by (simp add: extends_refl)
next
  case (6 name desc fo flds h buffer baseOffset inst)
  then show ?case by simp
next
  case (7 name elem n fo flds h buffer baseOffset inst)
  then show ?case
    by (auto split: if_splits sum.splits dest!: new_Typed_extends intro: extends_trans)
next
  case (8 name desc fo flds h buffer baseOffset inst)
  then show ?case
    by (auto split: if_splits sum.splits intro: extends_trans)
next
  case (9 name elemDesc fo flds h buffer baseOffset inst)
  then show ?case by simp
next
  case (10 name elemDesc n fo flds h buffer baseOffset inst)
  then show ?case by (auto split: if_splits sum.splits intro: extends_trans)
next
  case (11 h buffer baseOffset own)
  then show ?case by (simp add: extends_refl)
next
  case (12 name desc fo flds h buffer baseOffset own)
  then show ?case by simp
next
  case (13 name elem n fo flds h buffer baseOffset own)
  then show ?case by simp
next
  case (14 name desc fo flds h buffer baseOffset own)
  then show ?case by (auto split: if_splits sum.splits intro: extends_trans)
next
  case (15 name elemDesc fo flds h buffer baseOffset own)
  then show ?case by (simp split: if_splits)
next
  case (16 name elemDesc n fo flds h buffer baseOffset own)
  then show ?case by (auto split: if_splits sum.splits intro: extends_trans)
next
  case (17 d i h buffer baseOffset arr)
  then show ?case by (simp add: extends_refl)
next
  case (18 d k i h buffer baseOffset arr)
  then show ?case by (auto split: if_splits sum.splits intro: extends_trans)
qed


lemma list_all_shares_m_extends:
  "extends h h' \<Longrightarrow> list_all (\<lambda>(name, m). shares_m (typed h) b m) ms
    \<Longrightarrow> list_all (\<lambda>(name, m). shares_m (typed h') b m) ms"
  by (auto simp: list_all_iff dest: shares_m_extends)

lemma list_all_shares_own_extends:
  "extends h h' \<Longrightarrow> list_all (\<lambda>(name, v). shares (typed h) b v) own
    \<Longrightarrow> list_all (\<lambda>(name, v). shares (typed h') b v) own"
  by (auto simp: list_all_iff dest: shares_extends)

lemma list_all_shares_extends:
  "extends h h' \<Longrightarrow> list_all (shares (typed h) b) vs \<Longrightarrow> list_all (shares (typed h') b) vs"
  by (auto simp: list_all_iff dest: shares_extends)

lemma bind_shares:
  "bind d h b base = Inr (v, h') \<Longrightarrow> shares (typed h') b v"
  "bind_js flds h b base inst = Inr (ms, h') \<Longrightarrow>
     list_all (\<lambda>(name, m). shares_m (typed h) b m) inst \<Longrightarrow>
     list_all (\<lambda>(name, m). shares_m (typed h') b m) ms"
  "bind_ts flds h b base own = Inr (ow, h') \<Longrightarrow>
     list_all (\<lambda>(name, v). shares (typed h) b v) own \<Longrightarrow>
     list_all (\<lambda>(name, v). shares (typed h') b v) ow"
  "elems d k i h b base arr = Inr (vs, h') \<Longrightarrow>
     list_all (shares (typed h) b) arr \<Longrightarrow> list_all (shares (typed h') b) vs"
proof (induction d h b base and flds h b base inst and flds h b base own and d k i h b base arr
       arbitrary: v h' and ms h' and ow h' and vs h'
       rule: bind_bind_js_bind_ts_elems.induct)
  case (1 totalSize flds h buffer baseOffset)
  then show ?case by (auto split: if_splits sum.splits)
next
  case (2 elemDesc n s h buffer baseOffset)
  then show ?case by simp
next
  case (3 totalSize flds h buffer baseOffset)
  then show ?case by (auto split: if_splits sum.splits)
next
  case (4 structDesc n h buffer baseOffset)
  then show ?case by (auto split: if_splits sum.splits)
next
  case (5 h buffer baseOffset inst)
  then show ?case by simp
next
  case (6 name desc fo flds h buffer baseOffset inst)
  then show ?case by simp
next
  case (7 name elem n fo flds h buffer baseOffset inst)
  from "7.prems"(1) obtain ta h1 where
    ta: "new_Typed h elem buffer (plus_n baseOffset fo) n = Inr (ta, h1)"
    and rest: "bind_js flds h1 buffer baseOffset (inst @ [(name, Vec (Window ta n))]) = Inr (ms, h')"
    by (auto split: sum.splits)
  have "list_all (\<lambda>(name, m). shares_m (typed h1) buffer m) inst"
    using list_all_shares_m_extends [OF new_Typed_extends [OF ta] "7.prems"(2)] .
  moreover have "shares_m (typed h1) buffer (Vec (Window ta n))"
    using new_Typed_window [OF ta] by simp
  ultimately have "list_all (\<lambda>(name, m). shares_m (typed h1) buffer m) (inst @ [(name, Vec (Window ta n))])"
    by simp
  then show ?case using "7.IH" [OF ta refl rest] by simp
next
  case (8 name desc fo flds h buffer baseOffset inst)
  from "8.prems"(1) obtain v h1 where
    v: "bind desc h buffer (plus_n baseOffset fo) = Inr (v, h1)"
    and rest: "bind_js flds h1 buffer baseOffset (inst @ [(name, Own v)]) = Inr (ms, h')"
    by (auto split: sum.splits)
  have "list_all (\<lambda>(name, m). shares_m (typed h1) buffer m) inst"
    using list_all_shares_m_extends [OF bind_extends(1) [OF v] "8.prems"(2)] .
  moreover have "shares (typed h1) buffer v" using "8.IH"(1) [OF v] .
  ultimately have "list_all (\<lambda>(name, m). shares_m (typed h1) buffer m) (inst @ [(name, Own v)])"
    by simp
  then show ?case using "8.IH"(2) [OF v refl rest] by simp
next
  case (9 name elemDesc fo flds h buffer baseOffset inst)
  then show ?case by simp
next
  case (10 name elemDesc n fo flds h buffer baseOffset inst)
  from "10.prems"(1) obtain arr h1 where
    a: "elems elemDesc n 0 h buffer (plus_n baseOffset fo) [] = Inr (arr, h1)"
    and rest: "bind_js flds h1 buffer baseOffset (inst @ [(name, Own (Arr None arr))]) = Inr (ms, h')"
    by (auto split: sum.splits)
  have "list_all (\<lambda>(name, m). shares_m (typed h1) buffer m) inst"
    using list_all_shares_m_extends [OF bind_extends(4) [OF a] "10.prems"(2)] .
  moreover have "list_all (shares (typed h1) buffer) arr" using "10.IH"(1) [OF a] by simp
  ultimately have "list_all (\<lambda>(name, m). shares_m (typed h1) buffer m) (inst @ [(name, Own (Arr None arr))])"
    by simp
  then show ?case using "10.IH"(2) [OF a refl rest] by simp
next
  case (11 h buffer baseOffset own)
  then show ?case by simp
next
  case (12 name desc fo flds h buffer baseOffset own)
  then show ?case by simp
next
  case (13 name elem n fo flds h buffer baseOffset own)
  then show ?case by simp
next
  case (14 name desc fo flds h buffer baseOffset own)
  from "14.prems"(1) obtain v h1 where
    v: "bind desc h buffer (plus_n baseOffset fo) = Inr (v, h1)"
    and rest: "bind_ts flds h1 buffer baseOffset (own @ [(name, v)]) = Inr (ow, h')"
    by (auto split: sum.splits)
  have "list_all (\<lambda>(name, v). shares (typed h1) buffer v) own"
    using list_all_shares_own_extends [OF bind_extends(1) [OF v] "14.prems"(2)] .
  moreover have "shares (typed h1) buffer v" using "14.IH"(1) [OF v] .
  ultimately have "list_all (\<lambda>(name, v). shares (typed h1) buffer v) (own @ [(name, v)])"
    by simp
  then show ?case using "14.IH"(2) [OF v refl rest] by simp
next
  case (15 name elemDesc fo flds h buffer baseOffset own)
  then show ?case by (simp split: if_splits)
next
  case (16 name elemDesc n fo flds h buffer baseOffset own)
  from "16.prems"(1) have hc: "\<not> \<not> has_create elemDesc" and n0: "n \<noteq> 0"
    by (auto split: if_splits)
  from "16.prems"(1) hc n0 obtain arr h1 where
    a: "elems elemDesc n 0 h buffer (plus_n baseOffset fo) [] = Inr (arr, h1)"
    and rest: "bind_ts flds h1 buffer baseOffset (own @ [(name, Arr (Some buffer) arr)]) = Inr (ow, h')"
    by (auto split: sum.splits)
  have "list_all (\<lambda>(name, v). shares (typed h1) buffer v) own"
    using list_all_shares_own_extends [OF bind_extends(4) [OF a] "16.prems"(2)] .
  moreover have "list_all (shares (typed h1) buffer) arr" using "16.IH"(1) [OF hc n0 a] by simp
  ultimately have "list_all (\<lambda>(name, v). shares (typed h1) buffer v) (own @ [(name, Arr (Some buffer) arr)])"
    by simp
  then show ?case using "16.IH"(2) [OF hc n0 a refl rest] by simp
next
  case (17 d i h buffer baseOffset arr)
  then show ?case by simp
next
  case (18 d k i h buffer baseOffset arr)
  from "18.prems"(1) obtain v h1 where
    v: "bind d h buffer (plus_n baseOffset (times_n (Num i) (size_d d))) = Inr (v, h1)"
    and rest: "elems d k (Suc i) h1 buffer baseOffset (arr @ [v]) = Inr (vs, h')"
    by (auto split: sum.splits)
  have "list_all (shares (typed h1) buffer) arr"
    using list_all_shares_extends [OF bind_extends(1) [OF v] "18.prems"(2)] .
  moreover have "shares (typed h1) buffer v" using "18.IH"(1) [OF v] .
  ultimately have "list_all (shares (typed h1) buffer) (arr @ [v])" by simp
  then show ?case using "18.IH"(2) [OF v refl rest] by simp
qed

section \<open>Bytes and conversions\<close>

lemma length_le_bytes: "length (le_bytes k n) = k"
  by (induction k arbitrary: n) auto

lemma le_val_le_bytes: "le_val (le_bytes k n) = n mod 256 ^ k"
proof (induction k arbitrary: n)
  case 0
  then show ?case by simp
next
  case (Suc k)
  have "unat (of_nat (n mod 256) :: byte) = n mod 256"
    by (simp add: unat_of_nat)
  then show ?case using Suc [of "n div 256"]
    by (simp add: mod_mult2_eq)
qed

lemma read_write_bytes:
  "i + length bs \<le> length buf \<Longrightarrow> read_bytes (write_bytes buf i bs) i (length bs) = bs"
  by (simp add: read_bytes_def write_bytes_def)

lemma length_write_bytes:
  "i + length bs \<le> length buf \<Longrightarrow> length (write_bytes buf i bs) = length buf"
  by (simp add: write_bytes_def)

lemma nth_write_bytes:
  "i + length bs \<le> length buf \<Longrightarrow> j < i \<or> i + length bs \<le> j \<Longrightarrow>
     write_bytes buf i bs ! j = buf ! j"
  by (auto simp: write_bytes_def nth_append)

lemma encode_length: "encode K t v = Inr bs \<Longrightarrow> length bs = BYTES_PER_ELEMENT t"
  by (cases t) (auto simp: length_le_bytes BYTES_PER_ELEMENT_def split: sum.splits)

lemma signed_wrap: "0 < w \<Longrightarrow> signed w (nat (z mod 2 ^ w)) = wrap_s w z"
proof -
  assume w: "0 < w"
  define P :: int where "P = 2 ^ (w - 1)"
  have p: "(2::int) ^ w = 2 * P"
    using w by (cases w) (simp_all add: P_def)
  have P: "0 < P" by (simp add: P_def)
  define m where "m = z mod (2 * P)"
  have m: "0 \<le> m" "m < 2 * P" using P by (simp_all add: m_def)
  have "(z + P) mod (2 * P) = (m + P) mod (2 * P)"
    by (simp add: m_def mod_add_left_eq)
  also have "\<dots> = (if m < P then m + P else m - P)"
  proof (cases "m < P")
    case True
    then show ?thesis using m P by (simp add: mod_pos_pos_trivial)
  next
    case False
    then have "(m - P) mod (2 * P) = m - P"
      using m P by (intro mod_pos_pos_trivial) simp_all
    moreover have "(m - P + 2 * P) mod (2 * P) = (m - P) mod (2 * P)"
      by (rule mod_add_self2)
    moreover have "m - P + 2 * P = m + P" by simp
    ultimately show ?thesis using False by simp
  qed
  finally have e: "(z + P) mod (2 * P) - P = (if m < P then m else m - 2 * P)" by simp
  have "nat m < 2 ^ (w - 1) \<longleftrightarrow> m < P"
    using m by (simp add: P_def nat_less_iff)
  moreover have "int (nat m) = m" using m by simp
  ultimately have "signed w (nat m) = (if m < P then m else m - 2 * P)"
    by (simp add: signed_def p)
  moreover have "wrap_s w z = (z + P) mod (2 * P) - P"
    by (simp only: wrap_s_def P_def [symmetric] p)
  moreover have "z mod 2 ^ w = m"
    by (simp only: m_def p)
  ultimately show ?thesis
    using e by (simp only:)
qed

lemma unat_word_roundtrip32: "(of_nat (unat (w :: 32 word) mod 4294967296) :: 32 word) = w"
proof -
  have "unat w < 2 ^ 32" using unsigned_less [of w] by simp
  then have "unat w mod 4294967296 = unat w" by simp
  then show ?thesis by simp
qed

lemma unat_word_roundtrip64: "(of_nat (unat (w :: 64 word) mod 18446744073709551616) :: 64 word) = w"
proof -
  have "unat w < 2 ^ 64" using unsigned_less [of w] by simp
  then have "unat w mod 18446744073709551616 = unat w" by simp
  then show ?thesis by simp
qed

lemma nat_mod_mod: "0 < k \<Longrightarrow> int (nat (z mod k)) = z mod k"
  by simp

lemma decode_encode:
  assumes "encode K t v = Inr bs"
  shows "native_conversion K t v = Inr (decode K t bs)"
proof (cases t)
  case Float32Array
  with assms show ?thesis
    by (cases v) (auto simp: le_val_le_bytes unat_word_roundtrip32)
next
  case Float64Array
  with assms show ?thesis
    by (cases v) (auto simp: le_val_le_bytes unat_word_roundtrip64)
next
  case Uint16Array
  with assms show ?thesis
    by (cases v) (auto simp: le_val_le_bytes BYTES_PER_ELEMENT_def wrap_u_def)
next
  case Uint32Array
  with assms show ?thesis
    by (cases v) (auto simp: le_val_le_bytes BYTES_PER_ELEMENT_def wrap_u_def)
next
  case BigUint64Array
  with assms show ?thesis
    by (cases v) (auto simp: le_val_le_bytes wrap_u_def)
next
  case Int16Array
  have "signed 16 (nat (z mod 2 ^ 16)) = wrap_s 16 z" for z
    by (rule signed_wrap) simp
  moreover have "wrap_s 16 0 = signed 16 0"
    using signed_wrap [of 16 0] by simp
  ultimately show ?thesis using assms Int16Array
    by (cases v) (auto simp: le_val_le_bytes BYTES_PER_ELEMENT_def)
next
  case Int32Array
  have "signed 32 (nat (z mod 2 ^ 32)) = wrap_s 32 z" for z
    by (rule signed_wrap) simp
  moreover have "wrap_s 32 0 = signed 32 0"
    using signed_wrap [of 32 0] by simp
  ultimately show ?thesis using assms Int32Array
    by (cases v) (auto simp: le_val_le_bytes BYTES_PER_ELEMENT_def)
next
  case BigInt64Array
  have "signed 64 (nat (z mod 2 ^ 64)) = wrap_s 64 z" for z
    by (rule signed_wrap) simp
  moreover have "wrap_s 64 0 = signed 64 0"
    using signed_wrap [of 64 0] by simp
  ultimately show ?thesis using assms BigInt64Array
    by (cases v) (auto simp: le_val_le_bytes)
qed

lemma encode_error:
  "encode K t v = Inl e \<Longrightarrow> native_conversion K t v = Inl e"
  by (cases t; cases v) (auto split: sum.splits)

lemma scalar_write_read_alias:
  assumes b: "b < length (buffers h)"
    and fit: "ToIndex pos + BYTES_PER_ELEMENT t \<le> byteLength h b"
    and s: "setter_kind (setter desc) = t"
    and g: "getter_kind (getter desc') = t"
  shows "case native_conversion K t v of
           Inl e \<Rightarrow> scalar_set K h (Accessor b desc pos) v = Inl e
         | Inr x \<Rightarrow> (\<exists>h'. scalar_set K h (Accessor b desc pos) v = Inr h'
                        \<and> scalar_get K h' (Accessor b desc' pos) = Inr x)"
proof (cases "encode K t v")
  case (Inl e)
  then show ?thesis using encode_error [OF Inl] s by (simp add: DataView_set_def)
next
  case (Inr bs)
  note len = encode_length [OF Inr]
  define h' where "h' = h\<lparr>buffers := (buffers h)[b := write_bytes (buffers h ! b) (ToIndex pos) bs]\<rparr>"
  have set: "scalar_set K h (Accessor b desc pos) v = Inr h'"
    using Inr fit s by (simp add: DataView_set_def h'_def)
  have buf: "buffers h' ! b = write_bytes (buffers h ! b) (ToIndex pos) bs"
    using b by (simp add: h'_def)
  have fit': "ToIndex pos + length bs \<le> length (buffers h ! b)"
    using fit len by (simp add: byteLength_def)
  have "byteLength h' b = byteLength h b"
    using buf length_write_bytes [OF fit'] by (simp add: byteLength_def)
  moreover have "read_bytes (buffers h' ! b) (ToIndex pos) (BYTES_PER_ELEMENT t) = bs"
    using read_write_bytes [OF fit'] buf len by simp
  ultimately have "scalar_get K h' (Accessor b desc' pos) = Inr (decode K t bs)"
    using fit g by (simp add: DataView_get_def)
  then show ?thesis using set decode_encode [OF Inr] by simp
qed

lemma ta_set_frame:
  "ta_set K h ta i v = Inr h' \<Longrightarrow> typed h' = typed h \<and> cache h' = cache h \<and> instances h' = instances h
     \<and> length (buffers h') = length (buffers h) \<and> expando h' = expando h"
  by (auto simp: ta_set_def Let_def split: sum.splits if_splits)

lemma copy_frame:
  "copy K h ta arr k i = Inr h' \<Longrightarrow> typed h' = typed h \<and> cache h' = cache h \<and> instances h' = instances h
     \<and> length (buffers h') = length (buffers h) \<and> expando h' = expando h"
proof (induction k arbitrary: h i)
  case 0
  then show ?case by simp
next
  case (Suc k)
  from Suc.prems obtain h1 where 1: "ta_set K h ta i (at_arr arr i) = Inr h1"
    and 2: "copy K h1 ta arr k (Suc i) = Inr h'"
    by (auto split: sum.splits)
  show ?case using ta_set_frame [OF 1] Suc.IH [OF 2] by simp
qed

section \<open>Writes through a typed array\<close>

lemma ta_set_bytes:
  assumes set: "ta_set K h ta i v = Inr h'"
    and tb: "ta_buffer (typed h ! ta) < length (buffers h)"
    and fits: "byteOffset (typed h ! ta) + ta_length (typed h ! ta) * BYTES_PER_ELEMENT (ta_type (typed h ! ta))
                 \<le> length (buffers h ! ta_buffer (typed h ! ta))"
  shows "length (buffers h' ! b) = length (buffers h ! b)"
    and "b \<noteq> ta_buffer (typed h ! ta)
         \<or> j < byteOffset (typed h ! ta) + i * BYTES_PER_ELEMENT (ta_type (typed h ! ta))
         \<or> byteOffset (typed h ! ta) + Suc i * BYTES_PER_ELEMENT (ta_type (typed h ! ta)) \<le> j
         \<Longrightarrow> buffers h' ! b ! j = buffers h ! b ! j"
proof -
  define w where "w = typed h ! ta"
  define n where "n = BYTES_PER_ELEMENT (ta_type w)"
  from set obtain bs where enc: "encode K (ta_type w) v = Inr bs"
    by (auto simp: ta_set_def Let_def w_def split: sum.splits)
  have len: "length bs = n" using encode_length [OF enc] by (simp add: n_def)
  show "length (buffers h' ! b) = length (buffers h ! b)"
  proof (cases "i < ta_length w")
    case True
    then have "Suc i * n \<le> ta_length w * n"
      using mult_le_mono1 [of "Suc i" "ta_length w" n] by simp
    then have fit: "byteOffset w + i * n + length bs \<le> length (buffers h ! ta_buffer w)"
      using fits len by (simp add: w_def n_def)
    have h': "h' = h\<lparr>buffers := (buffers h)[ta_buffer w :=
                  write_bytes (buffers h ! ta_buffer w) (byteOffset w + i * n) bs]\<rparr>"
      using set enc True by (simp add: ta_set_def Let_def w_def n_def)
    show ?thesis
      using tb length_write_bytes [OF fit]
      by (cases "b = ta_buffer w") (simp_all add: h' w_def)
  next
    case False
    then have "h' = h" using set enc by (simp add: ta_set_def Let_def w_def)
    then show ?thesis by simp
  qed
  assume out: "b \<noteq> ta_buffer (typed h ! ta)
         \<or> j < byteOffset (typed h ! ta) + i * BYTES_PER_ELEMENT (ta_type (typed h ! ta))
         \<or> byteOffset (typed h ! ta) + Suc i * BYTES_PER_ELEMENT (ta_type (typed h ! ta)) \<le> j"
  show "buffers h' ! b ! j = buffers h ! b ! j"
  proof (cases "i < ta_length w")
    case True
    then have "Suc i * n \<le> ta_length w * n"
      using mult_le_mono1 [of "Suc i" "ta_length w" n] by simp
    then have fit: "byteOffset w + i * n + length bs \<le> length (buffers h ! ta_buffer w)"
      using fits len by (simp add: w_def n_def)
    have h': "h' = h\<lparr>buffers := (buffers h)[ta_buffer w :=
                  write_bytes (buffers h ! ta_buffer w) (byteOffset w + i * n) bs]\<rparr>"
      using set enc True by (simp add: ta_set_def Let_def w_def n_def)
    show ?thesis
    proof (cases "b = ta_buffer w")
      case True
      then have "j < byteOffset w + i * n \<or> byteOffset w + i * n + length bs \<le> j"
        using out len by (auto simp: w_def n_def)
      then show ?thesis
        using tb True nth_write_bytes [OF fit] by (simp add: h' w_def)
    next
      case False
      then show ?thesis by (simp add: h')
    qed
  next
    case False
    then have "h' = h" using set enc by (simp add: ta_set_def Let_def w_def)
    then show ?thesis by simp
  qed
qed

lemma copy_bytes:
  assumes "copy K h ta arr k i = Inr h'"
    and "ta_buffer (typed h ! ta) < length (buffers h)"
    and "byteOffset (typed h ! ta) + ta_length (typed h ! ta) * BYTES_PER_ELEMENT (ta_type (typed h ! ta))
                 \<le> length (buffers h ! ta_buffer (typed h ! ta))"
  shows "length (buffers h' ! b) = length (buffers h ! b)
    \<and> (b \<noteq> ta_buffer (typed h ! ta)
         \<or> j < byteOffset (typed h ! ta) + i * BYTES_PER_ELEMENT (ta_type (typed h ! ta))
         \<or> byteOffset (typed h ! ta) + (i + k) * BYTES_PER_ELEMENT (ta_type (typed h ! ta)) \<le> j
         \<longrightarrow> buffers h' ! b ! j = buffers h ! b ! j)"
  using assms
proof (induction k arbitrary: h i)
  case 0
  then show ?case by simp
next
  case (Suc k)
  from Suc.prems(1) obtain h1 where 1: "ta_set K h ta i (at_arr arr i) = Inr h1"
    and 2: "copy K h1 ta arr k (Suc i) = Inr h'"
    by (auto split: sum.splits)
  note f = ta_set_frame [OF 1]
  note l = ta_set_bytes(1) [OF 1 Suc.prems(2,3)]
  have tb: "ta_buffer (typed h1 ! ta) < length (buffers h1)"
    using Suc.prems(2) f by simp
  have fits: "byteOffset (typed h1 ! ta) + ta_length (typed h1 ! ta) * BYTES_PER_ELEMENT (ta_type (typed h1 ! ta))
                 \<le> length (buffers h1 ! ta_buffer (typed h1 ! ta))"
    using Suc.prems(3) f l by simp
  note IH = Suc.IH [OF 2 tb fits]
  define n where "n = BYTES_PER_ELEMENT (ta_type (typed h ! ta))"
  define off where "off = byteOffset (typed h ! ta)"
  have m1: "i * n \<le> Suc i * n" by simp
  have m2: "Suc i * n \<le> (i + Suc k) * n"
    using mult_le_mono1 [of "Suc i" "i + Suc k" n] by simp
  have m3: "(Suc i + k) * n = (i + Suc k) * n" by simp
  have len: "length (buffers h' ! b) = length (buffers h ! b)"
    using IH l by simp
  have "buffers h' ! b ! j = buffers h ! b ! j"
    if out: "b \<noteq> ta_buffer (typed h ! ta) \<or> j < off + i * n \<or> off + (i + Suc k) * n \<le> j"
  proof -
    from out m2 have "b \<noteq> ta_buffer (typed h ! ta) \<or> j < off + i * n \<or> off + Suc i * n \<le> j"
      by linarith
    then have A: "buffers h1 ! b ! j = buffers h ! b ! j"
      using ta_set_bytes(2) [OF 1 Suc.prems(2,3), of b j] by (simp only: n_def off_def)
    from out m1 m3 have "b \<noteq> ta_buffer (typed h ! ta) \<or> j < off + Suc i * n \<or> off + (Suc i + k) * n \<le> j"
      by linarith
    then have "buffers h' ! b ! j = buffers h1 ! b ! j"
      using IH f by (simp only: n_def off_def)
    with A show ?thesis by simp
  qed
  with len show ?case by (simp only: n_def off_def) blast
qed

section \<open>Scalar fields\<close>

text \<open>
  C7, as stated: for every scalar field and every numeric value, writing the value and
  reading the field back returns the native conversion of the value. It fails for a Number
  written to a 64-bit integer field: \<^verbatim>\<open>setBigUint64\<close> takes a BigInt and throws a TypeError
  on a Number, so nothing is written. The field \<^verbatim>\<open>x\<close> of \<^verbatim>\<open>c.struct({ x: c.uint64() })\<close> of
  \<^verbatim>\<open>index.ts\<close>, written with the Number 3:
\<close>

theorem uint64_number_type_error:
  "struct_ts [(''x'', uint64_ts)] = Inr (StructTs (Num 8) [Scalar ''x'' (p_get p_ts ''uint64'') (Num 0)])
   \<and> create (StructTs (Num 8) [Scalar ''x'' (p_get p_ts ''uint64'') (Num 0)]) empty_heap None None
       = Inr (Ctor 0 0 (Num 0) [Scalar ''x'' (p_get p_ts ''uint64'') (Num 0)] [],
              empty_heap\<lparr>buffers := [replicate 8 0], instances := 1\<rparr>)
   \<and> members (Ctor 0 0 (Num 0) [Scalar ''x'' (p_get p_ts ''uint64'') (Num 0)] [])
       = [(''x'', Acc (Accessor 0 (p_get p_ts ''uint64'') (Num 0)))]
   \<and> scalar_set any_ieee (empty_heap\<lparr>buffers := [replicate 8 0], instances := 1\<rparr>)
        (Accessor 0 (p_get p_ts ''uint64'') (Num 0)) (Number 3) = Inl TypeError"
  by (simp add: struct_ts_def uint64_ts_def p_get_def p_ts_def create_def ArrayBuffer_def
      empty_heap_def DataView_set_def entries_simps)

text \<open>
  C7, amended: for a scalar field whose accessor lies within its buffer, writing a value
  throws a TypeError and writes nothing when the value is a Number (or \<^verbatim>\<open>undefined\<close>,
  \<^verbatim>\<open>null\<close>) and the kind a 64-bit integer kind, or the value a BigInt and the kind any other
  kind; for every other value the write returns and reading the field back returns the
  native conversion of the value by the field's kind: a Number truncated towards zero and
  wrapped to 16 or 32 bits (3.7 reads back as 3 from a 32-bit unsigned field), a BigInt
  wrapped to 64 bits, a Number rounded by the floating-point encoding.
\<close>

theorem scalar_write_read:
  assumes "b < length (buffers h)"
    and "ToIndex pos + BYTES_PER_ELEMENT t \<le> byteLength h b"
    and "setter_kind (setter desc) = t"
    and "getter_kind (getter desc) = t"
  shows "case native_conversion K t v of
           Inl e \<Rightarrow> e = TypeError \<and> scalar_set K h (Accessor b desc pos) v = Inl TypeError
         | Inr x \<Rightarrow> (\<exists>h'. scalar_set K h (Accessor b desc pos) v = Inr h'
                        \<and> scalar_get K h' (Accessor b desc pos) = Inr x)"
proof -
  have "native_conversion K t v = Inl e \<Longrightarrow> e = TypeError" for e
    by (cases t; cases v) auto
  then show ?thesis
    using scalar_write_read_alias [OF assms, of K v] by (auto split: sum.splits)
qed

text \<open>The Number 3.7 written to a \<^verbatim>\<open>uint32\<close> field at offset 0 of a buffer of 4 bytes reads back as 3.\<close>

theorem scalar_write_read_witness:
  "\<exists>h'. scalar_set any_ieee (empty_heap\<lparr>buffers := [replicate 4 0]\<rparr>)
          (Accessor 0 (p_get p_ts ''uint32'') (Num 0)) (Number (37 / 10)) = Inr h'
        \<and> scalar_get any_ieee h' (Accessor 0 (p_get p_ts ''uint32'') (Num 0)) = Inr (Number 3)"
proof -
  have "\<lfloor>37 / 10 :: rat\<rfloor> = 3"
    by (simp add: floor_eq_iff)
  then show ?thesis
    using scalar_write_read [of 0 "empty_heap\<lparr>buffers := [replicate 4 0]\<rparr>" "Num 0" Uint32Array
      "p_get p_ts ''uint32''" any_ieee "Number (37 / 10)"]
    by (simp add: empty_heap_def byteLength_def BYTES_PER_ELEMENT_def p_get_def p_ts_def
      trunc_def wrap_u_def)
qed

section \<open>create\<close>

lemma bind_buffer_of: "bind d h b base = Inr (v, h') \<Longrightarrow> buffer_of v = Some b"
  by (cases d) (auto split: if_splits sum.splits)

lemma create_bind:
  assumes "create d h buffer baseOffset = Inr (v, h')"
  shows "bind d (case buffer of None \<Rightarrow> snd (ArrayBuffer h (size_d d)) | Some b \<Rightarrow> h)
           (case buffer of None \<Rightarrow> length (buffers h) | Some b \<Rightarrow> b)
           (case baseOffset of None \<Rightarrow> Num 0 | Some x \<Rightarrow> x) = Inr (v, h')"
  using assms
  by (auto simp: create_def ArrayBuffer_def split: if_splits option.splits)

lemma shares_members:
  assumes "shares T b v" and "(name, m) \<in> set (members v)"
  shows "shares_m T b m"
proof (cases v)
  case (Inst b' ms)
  with assms show ?thesis by (auto simp: list_all_iff)
next
  case (Ctor i b' base flds own)
  from assms(2) Ctor obtain f where f: "f \<in> set flds" and m: "(name, m) \<in> set (member_ts i b' base own f)"
    by auto
  have b: "b' = b" and own: "\<And>n u. (n, u) \<in> set own \<Longrightarrow> shares T b u"
    using assms(1) Ctor by (auto simp: list_all_iff)
  show ?thesis
    using m b own by (cases f) (auto split: option.splits dest!: map_of_SomeD [OF sym])
next
  case (Arr b' vs)
  with assms show ?thesis by simp
qed

lemma create_Outer_ts:
  "struct_ts [(''id'', uint_ts)] = Inr (StructTs (Num 4) [Scalar ''id'' (p_get p_ts ''uint32'') (Num 0)])"
  "struct_ts [(''n'', uint_ts),
              (''inner'', Desc (StructTs (Num 4) [Scalar ''id'' (p_get p_ts ''uint32'') (Num 0)]))]
     = Inr Outer_ts"
  "create Outer_ts empty_heap None None
     = Inr (outer_ts, empty_heap\<lparr>buffers := [replicate 8 0], instances := 2\<rparr>)"
  "members (Ctor 1 0 (Num 4) [Scalar ''id'' (p_get p_ts ''uint32'') (Num 0)] [])
     = [(''id'', Acc (Accessor 0 (p_get p_ts ''uint32'') (Num 4)))]"
  by (simp_all add: struct_ts_def uint_ts_def Outer_ts_def outer_ts_def create_def ArrayBuffer_def
      empty_heap_def p_get_def p_ts_def entries_simps)







section \<open>The window of a vector field\<close>

lemma read_bytes_eq:
  assumes "length a = length b" and "\<And>j. i \<le> j \<Longrightarrow> j < i + n \<Longrightarrow> a ! j = b ! j"
  shows "read_bytes a i n = read_bytes b i n"
  unfolding read_bytes_def
proof (rule nth_equalityI)
  show "length (take n (drop i a)) = length (take n (drop i b))"
    using assms(1) by simp
  fix k assume "k < length (take n (drop i a))"
  then have "k < n" "i + k < length a" by auto
  then show "take n (drop i a) ! k = take n (drop i b) ! k"
    using assms by simp
qed

lemma view_key: "''__'' @ name = ''__view'' \<longleftrightarrow> name = ''view''"
  by simp

lemma window_length: "window h m = Some w \<Longrightarrow> ta_length w = length_v m"
  by (cases m) (auto split: if_splits option.splits)

lemma window_Lazy:
  assumes "window h (Lazy i name b elem pos n) = Some w"
  shows "name \<noteq> ''view'' \<and> arrayType_v elem = Some (ta_type w)
         \<and> w = \<lparr>ta_type = ta_type w, ta_buffer = b, byteOffset = ToIndex pos, ta_length = n\<rparr>"
  using assms by (auto split: if_splits option.splits)

text \<open>
  The getter of an intact vector field returns its window, makes at most that one typed
  array, and returns the same typed array on the next read.
\<close>

lemma vector_get_intact:
  assumes i: "intact h m" and w: "window h m = Some w"
  shows "\<exists>ta h1. vector_get h m = Inr (TA ta, h1) \<and> ta < length (typed h1) \<and> typed h1 ! ta = w
          \<and> buffers h1 = buffers h \<and> expando h1 = expando h \<and> instances h1 = instances h
          \<and> (typed h1 = typed h \<and> cache h1 = cache h
              \<or> typed h1 = typed h @ [w]
                 \<and> (\<exists>s. slot m = Some s \<and> map_of (cache h) s = None \<and> cache h1 = (s, ta) # cache h))
          \<and> (\<forall>s. slot m = Some s \<longrightarrow> map_of (cache h1) s = Some ta)
          \<and> vector_get h1 m = Inr (TA ta, h1)"
proof (cases m)
  case (Window ta n)
  with w show ?thesis by (auto split: if_splits)
next
  case (Lazy j name b elem pos n)
  note wl = window_Lazy [OF w [unfolded Lazy]]
  from wl have name: "name \<noteq> ''view''" and t: "arrayType_v elem = Some (ta_type w)"
    and weq: "w = \<lparr>ta_type = ta_type w, ta_buffer = b, byteOffset = ToIndex pos, ta_length = n\<rparr>"
    by simp_all
  from i w have f: "fits h w" and al: "byteOffset w mod BYTES_PER_ELEMENT (ta_type w) = 0"
    by (simp_all add: intact_def)
  have bo: "byteOffset w = ToIndex pos" and bl: "ta_length w = n" and bb: "ta_buffer w = b"
    using weq by (metis typed_array.select_convs(3), metis typed_array.select_convs(4),
        metis typed_array.select_convs(2))
  show ?thesis
  proof (cases "map_of (cache h) (j, ''__'' @ name)")
    case None
    have nt: "new_Typed h elem b pos n
        = Inr (length (typed h), h\<lparr>typed := typed h @ [w]\<rparr>)"
      using t f al bo bl bb weq by (simp add: new_Typed_def TypedArray_def fits_def)
    let ?h1 = "h\<lparr>typed := typed h @ [w], cache := ((j, ''__'' @ name), length (typed h)) # cache h\<rparr>"
    have g: "vector_get h m = Inr (TA (length (typed h)), ?h1)"
      unfolding Lazy using name None nt by simp
    have g1: "vector_get ?h1 m = Inr (TA (length (typed h)), ?h1)"
      unfolding Lazy using name by simp
    show ?thesis
      using g g1 None unfolding Lazy
      by (intro exI [of _ "length (typed h)"] exI [of _ ?h1]) simp
  next
    case (Some ta)
    with i w have ta: "ta < length (typed h)" "typed h ! ta = w"
      by (simp_all add: intact_def Lazy)
    have g: "vector_get h m = Inr (TA ta, h)"
      unfolding Lazy using name Some by simp
    show ?thesis
      using g ta Some unfolding Lazy by (intro exI [of _ ta] exI [of _ h]) simp
  qed
qed

text \<open>What keeps a vector field intact from one heap to a later one.\<close>

lemma intact_later:
  assumes i: "intact h m" and w: "window h m = Some w"
    and len: "length (buffers h') = length (buffers h)"
      "\<And>b. length (buffers h' ! b) = length (buffers h ! b)"
    and ty: "\<exists>T. typed h' = typed h @ T"
    and ca: "\<And>s. slot m = Some s \<Longrightarrow> map_of (cache h') s = map_of (cache h) s
              \<or> (\<exists>ta. map_of (cache h') s = Some ta \<and> ta < length (typed h') \<and> typed h' ! ta = w)"
  shows "intact h' m \<and> window h' m = Some w"
proof -
  from ty obtain T where T: "typed h' = typed h @ T" ..
  have w': "window h' m = Some w"
    using w T by (cases m) (auto simp: nth_append split: if_splits)
  from i w have f: "fits h w" and al: "byteOffset w mod BYTES_PER_ELEMENT (ta_type w) = 0"
    by (simp_all add: intact_def)
  have f': "fits h' w" using f len by (simp add: fits_def byteLength_def)
  have "case slot m of None \<Rightarrow> True
        | Some s \<Rightarrow> (case map_of (cache h') s of None \<Rightarrow> True
                     | Some ta \<Rightarrow> ta < length (typed h') \<and> typed h' ! ta = w)"
  proof (cases "slot m")
    case None
    then show ?thesis by simp
  next
    case (Some s)
    from i w Some have old: "case map_of (cache h) s of None \<Rightarrow> True
                     | Some ta \<Rightarrow> ta < length (typed h) \<and> typed h ! ta = w"
      by (simp add: intact_def)
    from ca [OF Some] show ?thesis
    proof
      assume "map_of (cache h') s = map_of (cache h) s"
      then show ?thesis using old Some T by (auto simp: nth_append split: option.splits)
    next
      assume "\<exists>ta. map_of (cache h') s = Some ta \<and> ta < length (typed h') \<and> typed h' ! ta = w"
      then show ?thesis using Some by auto
    qed
  qed
  then show ?thesis using w' f' al by (simp add: intact_def)
qed

lemma intact_get:
  assumes i: "intact h m" and w: "window h m = Some w" and g: "vector_get h m = Inr (r, h1)"
  shows "intact h1 m \<and> window h1 m = Some w"
proof -
  from vector_get_intact [OF i w] g obtain ta where
    ta: "ta < length (typed h1)" "typed h1 ! ta = w" "buffers h1 = buffers h"
    and alt: "typed h1 = typed h \<and> cache h1 = cache h
              \<or> typed h1 = typed h @ [w]
                 \<and> (\<exists>s. slot m = Some s \<and> map_of (cache h) s = None \<and> cache h1 = (s, ta) # cache h)"
    by auto
  show ?thesis
  proof (rule intact_later [OF i w])
    show "length (buffers h1) = length (buffers h)" using ta by simp
    show "length (buffers h1 ! b) = length (buffers h ! b)" for b using ta by simp
    show "\<exists>T. typed h1 = typed h @ T" using alt by auto
    fix s assume "slot m = Some s"
    then show "map_of (cache h1) s = map_of (cache h) s
              \<or> (\<exists>ta. map_of (cache h1) s = Some ta \<and> ta < length (typed h1) \<and> typed h1 ! ta = w)"
      using alt ta by auto
  qed
qed

text \<open>An element of a typed array is read from the bytes of its place.\<close>

lemma vector_elem_intact:
  assumes i: "intact h m" and w: "window h m = Some w"
  shows "vector_elem K h m k =
           Inr (if k < ta_length w
                then decode K (ta_type w)
                       (read_bytes (buffers h ! ta_buffer w)
                          (byteOffset w + k * BYTES_PER_ELEMENT (ta_type w))
                          (BYTES_PER_ELEMENT (ta_type w)))
                else Undefined)"
proof -
  from vector_get_intact [OF i w] obtain ta h1 where
    "vector_get h m = Inr (TA ta, h1)" "typed h1 ! ta = w" "buffers h1 = buffers h"
    by blast
  then show ?thesis by (simp add: vector_elem_def ta_get_def Let_def)
qed

text \<open>An assignment to an element stores the bytes of the value at the place of the element.\<close>

lemma ta_set_element:
  assumes set: "ta_set K h ta i v = Inr h'" and f: "fits h (typed h ! ta)"
    and i: "i < ta_length (typed h ! ta)"
  shows "\<exists>bs. encode K (ta_type (typed h ! ta)) v = Inr bs
           \<and> read_bytes (buffers h' ! ta_buffer (typed h ! ta))
                (byteOffset (typed h ! ta) + i * BYTES_PER_ELEMENT (ta_type (typed h ! ta)))
                (BYTES_PER_ELEMENT (ta_type (typed h ! ta))) = bs"
proof -
  define w where "w = typed h ! ta"
  define n where "n = BYTES_PER_ELEMENT (ta_type w)"
  from set obtain bs where enc: "encode K (ta_type w) v = Inr bs"
    by (auto simp: ta_set_def Let_def w_def split: sum.splits)
  have len: "length bs = n" using encode_length [OF enc] by (simp add: n_def)
  have "Suc i * n \<le> ta_length w * n"
    using i mult_le_mono1 [of "Suc i" "ta_length w" n] by (simp add: w_def)
  then have fit: "byteOffset w + i * n + length bs \<le> length (buffers h ! ta_buffer w)"
    using f len by (simp add: w_def n_def fits_def byteLength_def)
  have tb: "ta_buffer w < length (buffers h)" using f by (simp add: fits_def w_def)
  have h': "h' = h\<lparr>buffers := (buffers h)[ta_buffer w :=
                  write_bytes (buffers h ! ta_buffer w) (byteOffset w + i * n) bs]\<rparr>"
    using set enc i by (simp add: ta_set_def Let_def w_def n_def)
  have "read_bytes (buffers h' ! ta_buffer w) (byteOffset w + i * n) n = bs"
    using read_write_bytes [OF fit] tb len by (simp add: h')
  with enc show ?thesis by (simp add: w_def n_def)
qed

lemma fits_ta_set:
  assumes set: "ta_set K h ta i v = Inr h'" and f: "fits h (typed h ! ta)"
  shows "fits h' (typed h' ! ta) \<and> typed h' ! ta = typed h ! ta"
proof -
  have tb: "ta_buffer (typed h ! ta) < length (buffers h)"
    and fi: "byteOffset (typed h ! ta) + ta_length (typed h ! ta) * BYTES_PER_ELEMENT (ta_type (typed h ! ta))
                 \<le> length (buffers h ! ta_buffer (typed h ! ta))"
    using f by (simp_all add: fits_def byteLength_def)
  show ?thesis
    using ta_set_frame [OF set] ta_set_bytes(1) [OF set tb fi] f
    by (simp add: fits_def byteLength_def)
qed

lemma copy_elements:
  assumes "copy K h ta arr k i = Inr h'" and "fits h (typed h ! ta)"
    and "i + k \<le> ta_length (typed h ! ta)" and "i \<le> j" and "j < i + k"
  shows "\<exists>bs. encode K (ta_type (typed h ! ta)) (at_arr arr j) = Inr bs
           \<and> read_bytes (buffers h' ! ta_buffer (typed h ! ta))
                (byteOffset (typed h ! ta) + j * BYTES_PER_ELEMENT (ta_type (typed h ! ta)))
                (BYTES_PER_ELEMENT (ta_type (typed h ! ta))) = bs"
  using assms
proof (induction k arbitrary: h i)
  case 0
  then show ?case by simp
next
  case (Suc k)
  from Suc.prems(1) obtain h1 where 1: "ta_set K h ta i (at_arr arr i) = Inr h1"
    and 2: "copy K h1 ta arr k (Suc i) = Inr h'"
    by (auto split: sum.splits)
  note f1 = fits_ta_set [OF 1 Suc.prems(2)]
  note f1' = f1 [THEN conjunct1] and ty = f1 [THEN conjunct2]
  show ?case
  proof (cases "j = i")
    case True
    define w where "w = typed h ! ta"
    define n where "n = BYTES_PER_ELEMENT (ta_type w)"
    from Suc.prems(3) have i: "i < ta_length (typed h ! ta)" by simp
    from ta_set_element [OF 1 Suc.prems(2) i] obtain bs where
      enc: "encode K (ta_type w) (at_arr arr i) = Inr bs"
      and rd: "read_bytes (buffers h1 ! ta_buffer w) (byteOffset w + i * n) n = bs"
      by (auto simp: w_def n_def)
    have tb: "ta_buffer (typed h1 ! ta) < length (buffers h1)"
      and fi: "byteOffset (typed h1 ! ta) + ta_length (typed h1 ! ta) * BYTES_PER_ELEMENT (ta_type (typed h1 ! ta))
                 \<le> length (buffers h1 ! ta_buffer (typed h1 ! ta))"
      using f1' by (simp_all add: fits_def byteLength_def)
    have fr: "length (buffers h' ! ta_buffer w) = length (buffers h1 ! ta_buffer w)
       \<and> (p < byteOffset w + Suc i * n \<longrightarrow> buffers h' ! ta_buffer w ! p = buffers h1 ! ta_buffer w ! p)" for p
      using copy_bytes [OF 2 tb fi, of "ta_buffer w" p] ty by (simp add: w_def n_def)
    have "read_bytes (buffers h' ! ta_buffer w) (byteOffset w + i * n) n
        = read_bytes (buffers h1 ! ta_buffer w) (byteOffset w + i * n) n"
    proof (rule read_bytes_eq)
      show "length (buffers h' ! ta_buffer w) = length (buffers h1 ! ta_buffer w)"
        using fr by simp
      fix p assume "byteOffset w + i * n \<le> p" "p < byteOffset w + i * n + n"
      then have "p < byteOffset w + Suc i * n" by simp
      then show "buffers h' ! ta_buffer w ! p = buffers h1 ! ta_buffer w ! p"
        using fr by simp
    qed
    with enc rd True show ?thesis by (simp add: w_def n_def)
  next
    case False
    with Suc.prems(4,5) have "Suc i \<le> j" "j < Suc i + k" by simp_all
    moreover from Suc.prems(3) ty have "Suc i + k \<le> ta_length (typed h1 ! ta)" by simp
    ultimately show ?thesis
      using Suc.IH [OF 2 f1'] ty by simp
  qed
qed

text \<open>
  An assignment to an intact vector field goes through the window of the field: it stores
  the bytes of each element of the source at the place of the element, changes no byte
  outside the window and no length, and leaves the typed arrays as the read left them.
\<close>

lemma vector_set_intact:
  assumes i: "intact h m" and w: "window h m = Some w" and s: "vector_set K h m arr = Inr h2"
  shows "\<exists>ta h1. vector_get h m = Inr (TA ta, h1) \<and> copy K h1 ta arr (ta_length w) 0 = Inr h2
          \<and> ta < length (typed h1) \<and> typed h1 ! ta = w \<and> fits h1 w \<and> buffers h1 = buffers h
          \<and> expando h1 = expando h \<and> instances h1 = instances h
          \<and> (typed h1 = typed h \<and> cache h1 = cache h
              \<or> typed h1 = typed h @ [w]
                 \<and> (\<exists>s. slot m = Some s \<and> map_of (cache h) s = None \<and> cache h1 = (s, ta) # cache h))
          \<and> typed h2 = typed h1 \<and> cache h2 = cache h1 \<and> vector_get h2 m = Inr (TA ta, h2)"
proof -
  from vector_get_intact [OF i w] obtain ta h1 where
    g: "vector_get h m = Inr (TA ta, h1)" and ta: "ta < length (typed h1)" "typed h1 ! ta = w"
    and b: "buffers h1 = buffers h" "expando h1 = expando h" "instances h1 = instances h"
    and alt: "typed h1 = typed h \<and> cache h1 = cache h
              \<or> typed h1 = typed h @ [w]
                 \<and> (\<exists>s. slot m = Some s \<and> map_of (cache h) s = None \<and> cache h1 = (s, ta) # cache h)"
    and kept: "\<forall>s. slot m = Some s \<longrightarrow> map_of (cache h1) s = Some ta"
    by blast
  from s g have c: "copy K h1 ta arr (ta_length w) 0 = Inr h2"
    by (simp add: vector_set_def window_length [OF w])
  note fr = copy_frame [OF c]
  from i w have "fits h w" by (simp add: intact_def)
  then have f1: "fits h1 w" using b by (simp add: fits_def byteLength_def)
  have g2: "vector_get h2 m = Inr (TA ta, h2)"
  proof (cases m)
    case (Window x n)
    with g show ?thesis by simp
  next
    case (Lazy j name bb elem pos n)
    from w have "name \<noteq> ''view''" unfolding Lazy by (simp split: if_splits)
    then show ?thesis using kept fr unfolding Lazy by simp
  qed
  show ?thesis
    using g c ta f1 b alt fr g2 by (intro exI [of _ ta] exI [of _ h1]) simp
qed

lemma vector_set_elements:
  assumes i: "intact h m" and w: "window h m = Some w" and s: "vector_set K h m arr = Inr h2"
    and k: "k < ta_length w"
  shows "\<exists>bs. encode K (ta_type w) (at_arr arr k) = Inr bs
           \<and> read_bytes (buffers h2 ! ta_buffer w)
                (byteOffset w + k * BYTES_PER_ELEMENT (ta_type w))
                (BYTES_PER_ELEMENT (ta_type w)) = bs"
proof -
  from vector_set_intact [OF i w s] obtain ta h1 where
    c: "copy K h1 ta arr (ta_length w) 0 = Inr h2" and ta: "typed h1 ! ta = w" and f: "fits h1 w"
    by blast
  have f': "fits h1 (typed h1 ! ta)" using f ta by simp
  have "0 + ta_length w \<le> ta_length (typed h1 ! ta)" using ta by simp
  from copy_elements [OF c f' this, of k] k show ?thesis using ta by simp
qed

lemma vector_set_frame:
  assumes i: "intact h m" and w: "window h m = Some w" and s: "vector_set K h m arr = Inr h2"
  shows "length (buffers h2) = length (buffers h)"
    and "length (buffers h2 ! b) = length (buffers h ! b)"
    and "b \<noteq> ta_buffer w \<or> j < byteOffset w
         \<or> byteOffset w + ta_length w * BYTES_PER_ELEMENT (ta_type w) \<le> j
         \<Longrightarrow> buffers h2 ! b ! j = buffers h ! b ! j"
    and "expando h2 = expando h" and "instances h2 = instances h"
proof -
  from vector_set_intact [OF i w s] obtain ta h1 where
    c: "copy K h1 ta arr (ta_length w) 0 = Inr h2" and ta: "typed h1 ! ta = w" and f: "fits h1 w"
    and b: "buffers h1 = buffers h" "expando h1 = expando h" "instances h1 = instances h"
    by blast
  note fr = copy_frame [OF c]
  have tb: "ta_buffer (typed h1 ! ta) < length (buffers h1)"
    and fi: "byteOffset (typed h1 ! ta) + ta_length (typed h1 ! ta) * BYTES_PER_ELEMENT (ta_type (typed h1 ! ta))
                 \<le> length (buffers h1 ! ta_buffer (typed h1 ! ta))"
    using f ta by (simp_all add: fits_def byteLength_def)
  note cb = copy_bytes [OF c tb fi, of b j]
  show "length (buffers h2) = length (buffers h)" using fr b by simp
  show "length (buffers h2 ! b) = length (buffers h ! b)" using cb b by simp
  show "expando h2 = expando h" using fr b by simp
  show "instances h2 = instances h" using fr b by simp
  assume "b \<noteq> ta_buffer w \<or> j < byteOffset w
         \<or> byteOffset w + ta_length w * BYTES_PER_ELEMENT (ta_type w) \<le> j"
  then show "buffers h2 ! b ! j = buffers h ! b ! j"
    using cb ta b by simp
qed

lemma vector_set_keeps:
  assumes i: "intact h m" and w: "window h m = Some w" and s: "vector_set K h m arr = Inr h2"
    and i': "intact h m'" and w': "window h m' = Some w'"
    and same: "\<And>s. slot m = Some s \<Longrightarrow> slot m' = Some s \<Longrightarrow> w' = w"
  shows "intact h2 m' \<and> window h2 m' = Some w'"
proof (rule intact_later [OF i' w'])
  from vector_set_intact [OF i w s] obtain ta h1 where
    A: "vector_get h m = Inr (TA ta, h1) \<and> copy K h1 ta arr (ta_length w) 0 = Inr h2
          \<and> ta < length (typed h1) \<and> typed h1 ! ta = w \<and> fits h1 w \<and> buffers h1 = buffers h
          \<and> expando h1 = expando h \<and> instances h1 = instances h
          \<and> (typed h1 = typed h \<and> cache h1 = cache h
              \<or> typed h1 = typed h @ [w]
                 \<and> (\<exists>s. slot m = Some s \<and> map_of (cache h) s = None \<and> cache h1 = (s, ta) # cache h))
          \<and> typed h2 = typed h1 \<and> cache h2 = cache h1 \<and> vector_get h2 m = Inr (TA ta, h2)"
    by blast
  from A have ta: "ta < length (typed h1)" "typed h1 ! ta = w"
    and eq: "typed h2 = typed h1" "cache h2 = cache h1"
    by simp_all
  from A have alt: "typed h1 = typed h \<and> cache h1 = cache h
              \<or> typed h1 = typed h @ [w]
                 \<and> (\<exists>s. slot m = Some s \<and> map_of (cache h) s = None \<and> cache h1 = (s, ta) # cache h)"
    by (elim conjE)
  show "length (buffers h2) = length (buffers h)" by (rule vector_set_frame(1) [OF i w s])
  show "length (buffers h2 ! b) = length (buffers h ! b)" for b
    by (rule vector_set_frame(2) [OF i w s])
  show "\<exists>T. typed h2 = typed h @ T" using alt eq by auto
  fix s' assume s': "slot m' = Some s'"
  from alt show "map_of (cache h2) s' = map_of (cache h) s'
              \<or> (\<exists>ta. map_of (cache h2) s' = Some ta \<and> ta < length (typed h2) \<and> typed h2 ! ta = w')"
  proof
    assume "typed h1 = typed h \<and> cache h1 = cache h"
    then show ?thesis using eq by simp
  next
    assume "typed h1 = typed h @ [w]
                 \<and> (\<exists>s. slot m = Some s \<and> map_of (cache h) s = None \<and> cache h1 = (s, ta) # cache h)"
    then obtain s0 where s0: "slot m = Some s0" "cache h1 = (s0, ta) # cache h" by blast
    show ?thesis
    proof (cases "s' = s0")
      case True
      then have "w' = w" using same s0 s' by simp
      then show ?thesis using True s0 eq ta by simp
    next
      case False
      then show ?thesis using s0 eq by simp
    qed
  qed
qed

text \<open>The same for the setter of a scalar field.\<close>

lemma scalar_set_frame:
  assumes s: "scalar_set K h (Accessor b desc pos) x = Inr h1" and b: "b < length (buffers h)"
  shows "\<exists>bs. encode K (setter_kind (setter desc)) x = Inr bs
           \<and> read_bytes (buffers h1 ! b) (ToIndex pos) (BYTES_PER_ELEMENT (setter_kind (setter desc))) = bs"
    and "typed h1 = typed h \<and> cache h1 = cache h \<and> expando h1 = expando h
         \<and> instances h1 = instances h \<and> length (buffers h1) = length (buffers h)"
    and "length (buffers h1 ! b') = length (buffers h ! b')"
    and "b' \<noteq> b \<or> j < ToIndex pos
         \<or> ToIndex pos + BYTES_PER_ELEMENT (setter_kind (setter desc)) \<le> j
         \<Longrightarrow> buffers h1 ! b' ! j = buffers h ! b' ! j"
proof -
  define t where "t = setter_kind (setter desc)"
  from s obtain bs where enc: "encode K t x = Inr bs"
    and fit: "ToIndex pos + BYTES_PER_ELEMENT t \<le> byteLength h b"
    and h1: "h1 = h\<lparr>buffers := (buffers h)[b := write_bytes (buffers h ! b) (ToIndex pos) bs]\<rparr>"
    by (auto simp: DataView_set_def Let_def t_def split: sum.splits if_splits)
  note len = encode_length [OF enc]
  have fit': "ToIndex pos + length bs \<le> length (buffers h ! b)"
    using fit len by (simp add: byteLength_def)
  have "read_bytes (buffers h1 ! b) (ToIndex pos) (BYTES_PER_ELEMENT t) = bs"
    using read_write_bytes [OF fit'] b len by (simp add: h1)
  with enc show "\<exists>bs. encode K (setter_kind (setter desc)) x = Inr bs
           \<and> read_bytes (buffers h1 ! b) (ToIndex pos) (BYTES_PER_ELEMENT (setter_kind (setter desc))) = bs"
    by (simp add: t_def)
  show "typed h1 = typed h \<and> cache h1 = cache h \<and> expando h1 = expando h
         \<and> instances h1 = instances h \<and> length (buffers h1) = length (buffers h)"
    by (simp add: h1)
  show "length (buffers h1 ! b') = length (buffers h ! b')"
    using b length_write_bytes [OF fit'] by (cases "b' = b") (simp_all add: h1)
  assume "b' \<noteq> b \<or> j < ToIndex pos
         \<or> ToIndex pos + BYTES_PER_ELEMENT (setter_kind (setter desc)) \<le> j"
  then show "buffers h1 ! b' ! j = buffers h ! b' ! j"
    using b nth_write_bytes [OF fit', of j] len by (cases "b' = b") (auto simp: h1 t_def)
qed

lemma scalar_set_keeps:
  assumes s: "scalar_set K h (Accessor b desc pos) x = Inr h1" and b: "b < length (buffers h)"
    and i: "intact h m" and w: "window h m = Some w"
  shows "intact h1 m \<and> window h1 m = Some w"
proof (rule intact_later [OF i w])
  note f = scalar_set_frame(2) [OF s b]
  show "length (buffers h1) = length (buffers h)" using f by simp
  show "length (buffers h1 ! b') = length (buffers h ! b')" for b'
    by (rule scalar_set_frame(3) [OF s b])
  show "\<exists>T. typed h1 = typed h @ T" using f by simp
  show "map_of (cache h1) s' = map_of (cache h) s'
        \<or> (\<exists>ta. map_of (cache h1) s' = Some ta \<and> ta < length (typed h1) \<and> typed h1 ! ta = w)" for s'
    using f by simp
qed

text \<open>
  A write through one field is read through another field on the same bytes, whichever the
  two fields are: an assignment to a vector field by a scalar field and by an element of a
  vector field, and an assignment to a scalar field by an element of a vector field.
\<close>

lemma window_place_fits:
  assumes f: "fits h w" and k: "k < ta_length w"
  shows "byteOffset w + k * BYTES_PER_ELEMENT (ta_type w) + BYTES_PER_ELEMENT (ta_type w)
           \<le> byteLength h (ta_buffer w)"
proof -
  have "Suc k * BYTES_PER_ELEMENT (ta_type w) \<le> ta_length w * BYTES_PER_ELEMENT (ta_type w)"
    using k mult_le_mono1 [of "Suc k" "ta_length w" "BYTES_PER_ELEMENT (ta_type w)"] by simp
  then show ?thesis using f by (simp add: fits_def)
qed

lemma vector_seen_by_scalar:
  assumes i: "intact h m" and w: "window h m = Some w" and s: "vector_set K h m arr = Inr h2"
    and k: "k < ta_length w" and p: "place_get a = place w k"
  shows "scalar_get K h2 a = native_conversion K (ta_type w) (at_arr arr k)"
proof -
  obtain b desc pos where a: "a = Accessor b desc pos" by (cases a)
  from p a have b: "b = ta_buffer w" and t: "getter_kind (getter desc) = ta_type w"
    and pos: "ToIndex pos = byteOffset w + k * BYTES_PER_ELEMENT (ta_type w)"
    by (simp_all add: place_def)
  from vector_set_elements [OF i w s k] obtain bs where
    enc: "encode K (ta_type w) (at_arr arr k) = Inr bs"
    and rd: "read_bytes (buffers h2 ! ta_buffer w)
                (byteOffset w + k * BYTES_PER_ELEMENT (ta_type w))
                (BYTES_PER_ELEMENT (ta_type w)) = bs"
    by blast
  from i w have f: "fits h w" by (simp add: intact_def)
  have "byteLength h2 (ta_buffer w) = byteLength h (ta_buffer w)"
    using vector_set_frame(2) [OF i w s] by (simp add: byteLength_def)
  then have "ToIndex pos + BYTES_PER_ELEMENT (ta_type w) \<le> byteLength h2 b"
    using window_place_fits [OF f k] pos b by simp
  then have "scalar_get K h2 a = Inr (decode K (ta_type w) bs)"
    using a b t pos rd by (simp add: DataView_get_def)
  then show ?thesis using decode_encode [OF enc] by simp
qed

lemma scalar_seen_by_vector:
  assumes i: "intact h m" and w: "window h m = Some w" and k: "k < ta_length w"
    and p: "place_set a = place w k" and s: "scalar_set K h a x = Inr h1"
  shows "vector_elem K h1 m k = native_conversion K (ta_type w) x"
proof -
  obtain b desc pos where a: "a = Accessor b desc pos" by (cases a)
  from p a have b: "b = ta_buffer w" and t: "setter_kind (setter desc) = ta_type w"
    and pos: "ToIndex pos = byteOffset w + k * BYTES_PER_ELEMENT (ta_type w)"
    by (simp_all add: place_def)
  from i w have f: "fits h w" by (simp add: intact_def)
  then have bl: "b < length (buffers h)" using b by (simp add: fits_def)
  note s' = s [unfolded a]
  from scalar_set_frame(1) [OF s' bl] obtain bs where
    enc: "encode K (ta_type w) x = Inr bs"
    and rd: "read_bytes (buffers h1 ! b) (ToIndex pos) (BYTES_PER_ELEMENT (ta_type w)) = bs"
    using t by auto
  note keep = scalar_set_keeps [OF s' bl i w]
  have "vector_elem K h1 m k = Inr (decode K (ta_type w) bs)"
    using vector_elem_intact [OF keep [THEN conjunct1] keep [THEN conjunct2], where K = K and k = k] k rd b pos
    by simp
  then show ?thesis using decode_encode [OF enc] by simp
qed

lemma vector_seen_by_vector:
  assumes i: "intact h m" and w: "window h m = Some w" and s: "vector_set K h m arr = Inr h2"
    and i': "intact h m'" and w': "window h m' = Some w'"
    and same: "\<And>s. slot m = Some s \<Longrightarrow> slot m' = Some s \<Longrightarrow> w' = w"
    and k: "k < ta_length w" and k': "k' < ta_length w'" and p: "place w' k' = place w k"
  shows "vector_elem K h2 m' k' = native_conversion K (ta_type w) (at_arr arr k)"
proof -
  from p have b: "ta_buffer w' = ta_buffer w" and t: "ta_type w' = ta_type w"
    by (simp_all add: place_def)
  from p t have pos: "byteOffset w' + k' * BYTES_PER_ELEMENT (ta_type w)
              = byteOffset w + k * BYTES_PER_ELEMENT (ta_type w)"
    by (simp add: place_def)
  from vector_set_elements [OF i w s k] obtain bs where
    enc: "encode K (ta_type w) (at_arr arr k) = Inr bs"
    and rd: "read_bytes (buffers h2 ! ta_buffer w)
                (byteOffset w + k * BYTES_PER_ELEMENT (ta_type w))
                (BYTES_PER_ELEMENT (ta_type w)) = bs"
    by blast
  note keep = vector_set_keeps [OF i w s i' w' same]
  have "vector_elem K h2 m' k' = Inr (decode K (ta_type w) bs)"
    using vector_elem_intact [OF keep [THEN conjunct1] keep [THEN conjunct2], where K = K and k = k'] k' rd b t pos
    by simp
  then show ?thesis using decode_encode [OF enc] by simp
qed

text \<open>
  An assignment to an intact vector field returns when no element of the source is a BigInt
  and the kind is not a 64-bit integer kind.
\<close>

lemma copy_returns:
  assumes "\<And>k z. at_arr arr k \<noteq> BigInt z"
    and "ta_type (typed h ! ta) \<noteq> BigUint64Array" "ta_type (typed h ! ta) \<noteq> BigInt64Array"
  shows "\<exists>h'. copy K h ta arr n i = Inr h'"
  using assms(2,3)
proof (induction n arbitrary: h i)
  case 0
  then show ?case by simp
next
  case (Suc n)
  have "\<exists>bs. encode K (ta_type (typed h ! ta)) (at_arr arr i) = Inr bs"
    using assms(1) [of i] Suc.prems
    by (cases "ta_type (typed h ! ta)"; cases "at_arr arr i") auto
  then have "\<exists>h1. ta_set K h ta i (at_arr arr i) = Inr h1"
    by (auto simp: ta_set_def Let_def)
  then obtain h1 where 1: "ta_set K h ta i (at_arr arr i) = Inr h1" ..
  have "typed h1 = typed h" using ta_set_frame [OF 1] by simp
  then show ?case using Suc.IH [of h1 "Suc i"] Suc.prems 1 by simp
qed

lemma vector_set_returns:
  assumes i: "intact h m" and w: "window h m = Some w"
    and arr: "\<And>k z. at_arr arr k \<noteq> BigInt z"
    and t: "ta_type w \<noteq> BigUint64Array" "ta_type w \<noteq> BigInt64Array"
  shows "\<exists>h2. vector_set K h m arr = Inr h2"
proof -
  from vector_get_intact [OF i w] obtain ta h1 where
    g: "vector_get h m = Inr (TA ta, h1)" and ta: "typed h1 ! ta = w"
    by blast
  have "\<exists>h2. copy K h1 ta arr (length_v m) 0 = Inr h2"
    using arr t ta by (intro copy_returns) simp_all
  then show ?thesis using g by (simp add: vector_set_def)
qed

section \<open>The views of one create are anchored to one buffer\<close>

lemma intact_extends:
  assumes e: "extends h h'" and i: "intact h m"
  shows "intact h' m \<and> window h' m = window h m"
proof -
  from i obtain w where w: "window h m = Some w"
    by (auto simp: intact_def split: option.splits)
  have "intact h' m \<and> window h' m = Some w"
    using e by (intro intact_later [OF i w]) (auto simp: extends_def)
  with w show ?thesis by simp
qed

lemma anchored_mono:
  "anchored lo h b v \<Longrightarrow> extends h h' \<Longrightarrow> lo' \<le> lo \<Longrightarrow> anchored lo' h' b v"
  "anchored_m lo h b m \<Longrightarrow> extends h h' \<Longrightarrow> lo' \<le> lo \<Longrightarrow> anchored_m lo' h' b m"
proof (induction lo h b v and lo h b m rule: anchored_anchored_m.induct)
  case (1 lo h b b' ms)
  then show ?case by (auto simp: list_all_iff)
next
  case (2 lo h b i b' base flds own)
  then show ?case by (auto simp: list_all_iff extends_def)
next
  case (3 lo h b b' vs)
  then show ?case by (auto simp: list_all_iff)
next
  case (4 lo h b b' desc pos)
  then show ?case by simp
next
  case (5 lo h b ta n)
  from "5.prems" have i: "intact h (Window ta n)" and tb: "ta_buffer (typed h ! ta) = b"
    by simp_all
  note k = intact_extends [OF "5.prems"(2) i]
  from i have "ta < length (typed h)" by (auto simp: intact_def split: if_splits option.splits)
  then have "typed h' ! ta = typed h ! ta"
    using "5.prems"(2) by (auto simp: extends_def nth_append)
  then show ?case using k tb by simp
next
  case (6 lo h b i name b' elem pos n)
  then show ?case by (auto simp: extends_def)
next
  case (7 lo h b v)
  then show ?case by simp
qed

lemma list_all_anchored_m_mono:
  "extends h h' \<Longrightarrow> list_all (\<lambda>(name, m). anchored_m lo h b m) ms
    \<Longrightarrow> list_all (\<lambda>(name, m). anchored_m lo h' b m) ms"
  by (auto simp: list_all_iff dest: anchored_mono(2) [where lo' = lo])

lemma list_all_anchored_own_mono:
  "extends h h' \<Longrightarrow> list_all (\<lambda>(name, v). anchored lo h b v) own
    \<Longrightarrow> list_all (\<lambda>(name, v). anchored lo h' b v) own"
  by (auto simp: list_all_iff dest: anchored_mono(1) [where lo' = lo])

lemma list_all_anchored_mono:
  "extends h h' \<Longrightarrow> list_all (anchored lo h b) vs \<Longrightarrow> list_all (anchored lo h' b) vs"
  by (auto simp: list_all_iff dest: anchored_mono(1) [where lo' = lo])

lemma extends_le: "extends h h' \<Longrightarrow> lo \<le> instances h \<Longrightarrow> lo \<le> instances h'"
  by (simp add: extends_def)

lemma new_Typed_anchored:
  assumes "new_Typed h elem b off n = Inr (ta, h')"
  shows "anchored_m lo h' b (Vec (Window ta n))"
proof -
  from assms obtain t where t: "arrayType_v elem = Some t"
    and ty: "TypedArray h t b off n = Inr (ta, h')"
    by (auto simp: new_Typed_def split: option.splits)
  let ?w = "\<lparr>ta_type = t, ta_buffer = b, byteOffset = ToIndex off, ta_length = n\<rparr>"
  from ty have b: "b < length (buffers h)" and al: "ToIndex off mod BYTES_PER_ELEMENT t = 0"
    and fi: "ToIndex off + n * BYTES_PER_ELEMENT t \<le> byteLength h b"
    and ta: "ta = length (typed h)" and h': "h' = h\<lparr>typed := typed h @ [?w]\<rparr>"
    by (auto simp: TypedArray_def split: if_splits)
  have "window h' (Window ta n) = Some ?w" by (simp add: ta h')
  moreover have "fits h' ?w" using b fi by (simp add: fits_def h' byteLength_def)
  ultimately have "intact h' (Window ta n)" using al by (simp add: intact_def)
  moreover have "ta_buffer (typed h' ! ta) = b" by (simp add: ta h')
  ultimately show ?thesis by simp
qed

lemma bind_anchored:
  "bind d h b base = Inr (v, h') \<Longrightarrow> anchored (instances h) h' b v"
  "bind_js flds h b base inst = Inr (ms, h') \<Longrightarrow>
     list_all (\<lambda>(name, m). anchored_m lo h b m) inst \<Longrightarrow> lo \<le> instances h \<Longrightarrow>
     list_all (\<lambda>(name, m). anchored_m lo h' b m) ms"
  "bind_ts flds h b base own = Inr (ow, h') \<Longrightarrow>
     list_all (\<lambda>(name, v). anchored lo h b v) own \<Longrightarrow> lo \<le> instances h \<Longrightarrow>
     list_all (\<lambda>(name, v). anchored lo h' b v) ow"
  "elems d k i h b base arr = Inr (vs, h') \<Longrightarrow>
     list_all (anchored lo h b) arr \<Longrightarrow> lo \<le> instances h \<Longrightarrow>
     list_all (anchored lo h' b) vs"
proof (induction d h b base and flds h b base inst and flds h b base own and d k i h b base arr
       arbitrary: v h' and ms h' lo and ow h' lo and vs h' lo
       rule: bind_bind_js_bind_ts_elems.induct)
  case (1 totalSize flds h buffer baseOffset)
  from "1.prems" obtain inst where
    r: "bind_js flds h buffer baseOffset [] = Inr (inst, h')" and v: "v = Inst buffer inst"
    and b: "\<not> \<not> buffer < length (buffers h)"
    by (auto split: if_splits sum.splits)
  have "list_all (\<lambda>(name, m). anchored_m (instances h) h' buffer m) inst"
    using "1.IH" [OF b r] by simp
  then show ?case using v by simp
next
  case (2 elemDesc n s h buffer baseOffset)
  then show ?case by simp
next
  case (3 totalSize flds h buffer baseOffset)
  from "3.prems" obtain own where
    r: "bind_ts flds (h\<lparr>instances := Suc (instances h)\<rparr>) buffer baseOffset [] = Inr (own, h')"
    and v: "v = Ctor (instances h) buffer baseOffset flds own"
    and b: "\<not> \<not> buffer < length (buffers h)"
    by (auto split: if_splits sum.splits)
  have "list_all (\<lambda>(name, v). anchored (instances h) h' buffer v) own"
    using "3.IH" [OF b r, of "instances h"] by simp
  moreover have "instances h < instances h'"
    using bind_extends(3) [OF r] by (simp add: extends_def)
  ultimately show ?case using v by simp
next
  case (4 structDesc n h buffer baseOffset)
  from "4.prems" obtain arr where
    r: "elems structDesc n 0 h buffer baseOffset [] = Inr (arr, h')"
    and v: "v = Arr (Some buffer) arr"
    by (auto split: sum.splits)
  have "list_all (anchored (instances h) h' buffer) arr"
    using "4.IH" [OF r, of "instances h"] by simp
  then show ?case using v by simp
next
  case (5 h buffer baseOffset inst)
  then show ?case by simp
next
  case (6 name desc fo flds h buffer baseOffset inst)
  from "6.prems"(1) have
    r: "bind_js flds h buffer baseOffset
          (inst @ [(name, Acc (Accessor buffer desc (plus_n baseOffset fo)))]) = Inr (ms, h')"
    by simp
  have "list_all (\<lambda>(name, m). anchored_m lo h buffer m)
          (inst @ [(name, Acc (Accessor buffer desc (plus_n baseOffset fo)))])"
    using "6.prems"(2) by simp
  then show ?case using "6.IH" [OF r _ "6.prems"(3)] by simp
next
  case (7 name elem n fo flds h buffer baseOffset inst)
  from "7.prems"(1) obtain ta h1 where
    ta: "new_Typed h elem buffer (plus_n baseOffset fo) n = Inr (ta, h1)"
    and rest: "bind_js flds h1 buffer baseOffset (inst @ [(name, Vec (Window ta n))]) = Inr (ms, h')"
    by (auto split: sum.splits)
  note e = new_Typed_extends [OF ta]
  have "list_all (\<lambda>(name, m). anchored_m lo h1 buffer m) inst"
    using list_all_anchored_m_mono [OF e "7.prems"(2)] .
  moreover have "anchored_m lo h1 buffer (Vec (Window ta n))"
    by (rule new_Typed_anchored [OF ta])
  ultimately have "list_all (\<lambda>(name, m). anchored_m lo h1 buffer m) (inst @ [(name, Vec (Window ta n))])"
    by simp
  then show ?case using "7.IH" [OF ta refl rest _ extends_le [OF e "7.prems"(3)]] by simp
next
  case (8 name desc fo flds h buffer baseOffset inst)
  from "8.prems"(1) obtain v h1 where
    v: "bind desc h buffer (plus_n baseOffset fo) = Inr (v, h1)"
    and rest: "bind_js flds h1 buffer baseOffset (inst @ [(name, Own v)]) = Inr (ms, h')"
    by (auto split: sum.splits)
  note e = bind_extends(1) [OF v]
  have "list_all (\<lambda>(name, m). anchored_m lo h1 buffer m) inst"
    using list_all_anchored_m_mono [OF e "8.prems"(2)] .
  moreover have "anchored lo h1 buffer v"
    using anchored_mono(1) [OF "8.IH"(1) [OF v] extends_refl "8.prems"(3)] .
  ultimately have "list_all (\<lambda>(name, m). anchored_m lo h1 buffer m) (inst @ [(name, Own v)])"
    by simp
  then show ?case using "8.IH"(2) [OF v refl rest _ extends_le [OF e "8.prems"(3)]] by simp
next
  case (9 name elemDesc fo flds h buffer baseOffset inst)
  from "9.prems"(1) have
    r: "bind_js flds h buffer baseOffset (inst @ [(name, Own (Arr None []))]) = Inr (ms, h')"
    by simp
  have "list_all (\<lambda>(name, m). anchored_m lo h buffer m) (inst @ [(name, Own (Arr None []))])"
    using "9.prems"(2) by simp
  then show ?case using "9.IH" [OF r _ "9.prems"(3)] by simp
next
  case (10 name elemDesc n fo flds h buffer baseOffset inst)
  from "10.prems"(1) obtain arr h1 where
    a: "elems elemDesc n 0 h buffer (plus_n baseOffset fo) [] = Inr (arr, h1)"
    and rest: "bind_js flds h1 buffer baseOffset (inst @ [(name, Own (Arr None arr))]) = Inr (ms, h')"
    by (auto split: sum.splits)
  note e = bind_extends(4) [OF a]
  have "list_all (\<lambda>(name, m). anchored_m lo h1 buffer m) inst"
    using list_all_anchored_m_mono [OF e "10.prems"(2)] .
  moreover have "list_all (anchored lo h1 buffer) arr"
    using "10.IH"(1) [OF a _ "10.prems"(3)] by simp
  ultimately have "list_all (\<lambda>(name, m). anchored_m lo h1 buffer m) (inst @ [(name, Own (Arr None arr))])"
    by simp
  then show ?case using "10.IH"(2) [OF a refl rest _ extends_le [OF e "10.prems"(3)]] by simp
next
  case (11 h buffer baseOffset own)
  then show ?case by simp
next
  case (12 name desc fo flds h buffer baseOffset own)
  then show ?case by simp
next
  case (13 name elem n fo flds h buffer baseOffset own)
  then show ?case by simp
next
  case (14 name desc fo flds h buffer baseOffset own)
  from "14.prems"(1) obtain v h1 where
    v: "bind desc h buffer (plus_n baseOffset fo) = Inr (v, h1)"
    and rest: "bind_ts flds h1 buffer baseOffset (own @ [(name, v)]) = Inr (ow, h')"
    by (auto split: sum.splits)
  note e = bind_extends(1) [OF v]
  have "list_all (\<lambda>(name, v). anchored lo h1 buffer v) own"
    using list_all_anchored_own_mono [OF e "14.prems"(2)] .
  moreover have "anchored lo h1 buffer v"
    using anchored_mono(1) [OF "14.IH"(1) [OF v] extends_refl "14.prems"(3)] .
  ultimately have "list_all (\<lambda>(name, v). anchored lo h1 buffer v) (own @ [(name, v)])"
    by simp
  then show ?case using "14.IH"(2) [OF v refl rest _ extends_le [OF e "14.prems"(3)]] by simp
next
  case (15 name elemDesc fo flds h buffer baseOffset own)
  then show ?case by (simp split: if_splits)
next
  case (16 name elemDesc n fo flds h buffer baseOffset own)
  from "16.prems"(1) have hc: "\<not> \<not> has_create elemDesc" and n0: "n \<noteq> 0"
    by (auto split: if_splits)
  from "16.prems"(1) hc n0 obtain arr h1 where
    a: "elems elemDesc n 0 h buffer (plus_n baseOffset fo) [] = Inr (arr, h1)"
    and rest: "bind_ts flds h1 buffer baseOffset (own @ [(name, Arr (Some buffer) arr)]) = Inr (ow, h')"
    by (auto split: sum.splits)
  note e = bind_extends(4) [OF a]
  have "list_all (\<lambda>(name, v). anchored lo h1 buffer v) own"
    using list_all_anchored_own_mono [OF e "16.prems"(2)] .
  moreover have "list_all (anchored lo h1 buffer) arr"
    using "16.IH"(1) [OF hc n0 a _ "16.prems"(3)] by simp
  ultimately have "list_all (\<lambda>(name, v). anchored lo h1 buffer v) (own @ [(name, Arr (Some buffer) arr)])"
    by simp
  then show ?case using "16.IH"(2) [OF hc n0 a refl rest _ extends_le [OF e "16.prems"(3)]] by simp
next
  case (17 d i h buffer baseOffset arr)
  then show ?case by simp
next
  case (18 d k i h buffer baseOffset arr)
  from "18.prems"(1) obtain v h1 where
    v: "bind d h buffer (plus_n baseOffset (times_n (Num i) (size_d d))) = Inr (v, h1)"
    and rest: "elems d k (Suc i) h1 buffer baseOffset (arr @ [v]) = Inr (vs, h')"
    by (auto split: sum.splits)
  note e = bind_extends(1) [OF v]
  have "list_all (anchored lo h1 buffer) arr"
    using list_all_anchored_mono [OF e "18.prems"(2)] .
  moreover have "anchored lo h1 buffer v"
    using anchored_mono(1) [OF "18.IH"(1) [OF v] extends_refl "18.prems"(3)] .
  ultimately have "list_all (anchored lo h1 buffer) (arr @ [v])" by simp
  then show ?case using "18.IH"(2) [OF v refl rest _ extends_le [OF e "18.prems"(3)]] by simp
qed

lemma anchored_views:
  "anchored lo h b v \<Longrightarrow> u \<in> set (views v) \<Longrightarrow> anchored lo h b u"
  "anchored_m lo h b m \<Longrightarrow> u \<in> set (views_m m) \<Longrightarrow> anchored lo h b u"
proof (induction v and m rule: views_views_m.induct)
  case (1 b' ms)
  then show ?case by (fastforce simp: list_all_iff)
next
  case (2 i b' base flds own)
  then show ?case by (fastforce simp: list_all_iff)
next
  case (3 b' vs)
  then show ?case by (fastforce simp: list_all_iff)
qed simp_all

lemma anchored_members:
  assumes "anchored lo h b v" and "(name, m) \<in> set (members v)"
  shows "anchored_m lo h b m"
proof (cases v)
  case (Inst b' ms)
  with assms show ?thesis by (auto simp: list_all_iff)
next
  case (Ctor i b' base flds own)
  from assms(2) Ctor obtain f where f: "f \<in> set flds" and m: "(name, m) \<in> set (member_ts i b' base own f)"
    by auto
  have b: "b' = b" "lo \<le> i" "i < instances h" and own: "\<And>n u. (n, u) \<in> set own \<Longrightarrow> anchored lo h b u"
    using assms(1) Ctor by (auto simp: list_all_iff)
  show ?thesis
    using m b own by (cases f) (auto split: option.splits dest!: map_of_SomeD [OF sym])
next
  case (Arr b' vs)
  with assms show ?thesis by simp
qed

lemma anchored_buffer_of:
  "anchored lo h b v \<Longrightarrow> buffer_of v = Some b \<or> buffer_of v = None"
  by (cases v) auto

lemma anchored_intact:
  assumes a: "anchored_m lo h b (Vec m)" and k: "kept_below lo h" and w: "window h m = Some w"
    and f: "fits h w" and al: "byteOffset w mod BYTES_PER_ELEMENT (ta_type w) = 0"
  shows "intact h m \<and> ta_buffer w = b"
proof (cases m)
  case (Window ta n)
  with a w show ?thesis by (auto split: if_splits)
next
  case (Lazy i name b' elem pos n)
  from a Lazy have b: "b' = b" and lo: "lo \<le> i" by simp_all
  have "(i, ''__'' @ name) \<notin> fst ` set (cache h)"
    using k lo by (fastforce simp: kept_below_def)
  then have "map_of (cache h) (i, ''__'' @ name) = None"
    by (simp add: map_of_eq_None_iff)
  moreover have "ta_buffer w = b" using window_Lazy [OF w [unfolded Lazy]] b
    by (metis typed_array.select_convs(2))
  ultimately show ?thesis using w f al Lazy by (simp add: intact_def)
qed

lemma anchored_shares:
  "anchored lo h b v \<Longrightarrow> shares (typed h) b v"
  "anchored_m lo h b m \<Longrightarrow> shares_m (typed h) b m"
proof (induction lo h b v and lo h b m rule: anchored_anchored_m.induct)
  case (1 lo h b b' ms)
  then show ?case by (auto simp: list_all_iff)
next
  case (2 lo h b i b' base flds own)
  then show ?case by (auto simp: list_all_iff)
next
  case (3 lo h b b' vs)
  then show ?case by (auto simp: list_all_iff)
next
  case (4 lo h b b' desc pos)
  then show ?case by simp
next
  case (5 lo h b ta n)
  then show ?case by (auto simp: intact_def split: if_splits option.splits)
next
  case (6 lo h b i name b' elem pos n)
  then show ?case by simp
next
  case (7 lo h b v)
  then show ?case by simp
qed

lemma create_anchored:
  assumes "create d h buffer baseOffset = Inr (v, h')"
  shows "anchored (instances h) h' (case buffer of None \<Rightarrow> length (buffers h) | Some b \<Rightarrow> b) v"
    and "cache h' = cache h"
proof -
  note b = create_bind [OF assms]
  have i: "instances (case buffer of None \<Rightarrow> snd (ArrayBuffer h (size_d d)) | Some b \<Rightarrow> h)
           = instances h"
    and c: "cache (case buffer of None \<Rightarrow> snd (ArrayBuffer h (size_d d)) | Some b \<Rightarrow> h)
           = cache h"
    by (simp_all add: ArrayBuffer_def split: option.splits)
  show "anchored (instances h) h' (case buffer of None \<Rightarrow> length (buffers h) | Some b \<Rightarrow> b) v"
    using bind_anchored(1) [OF b] i by simp
  show "cache h' = cache h"
    using bind_extends(1) [OF b] c by (simp add: extends_def)
qed

text \<open>
  Every view that a call of \<^verbatim>\<open>create\<close> produces (the root and the views of nested struct
  and array fields at every depth, \<open>views v\<close>) refers to one buffer: the buffer given, or the
  fresh one. So do the accessors and typed arrays of their fields, and a typed array made
  by \<^verbatim>\<open>create\<close> lies within that buffer; a vector field of \<^verbatim>\<open>index.ts\<close>, whose typed array is
  made at the first read, is intact when its window lies within the buffer at a multiple of
  the element size, provided that the heap before keeps no typed array for an instance
  still to come.

  A write through a scalar field or an intact vector field is seen by a read through every
  such field on the same bytes, whichever views the two fields belong to, in every later
  heap: a write through a scalar field by a scalar field and by an element of a vector
  field, an assignment to a vector field by a scalar field and by an element of a vector
  field, of the same field or of another one. The read returns the native conversion of the
  value written.
\<close>

lemma create_shares_buffer:
  assumes "create d h buffer baseOffset = Inr (v, h')"
  shows "shares (typed h') (case buffer of None \<Rightarrow> length (buffers h) | Some b \<Rightarrow> b) v
    \<and> buffer_of v = Some (case buffer of None \<Rightarrow> length (buffers h) | Some b \<Rightarrow> b)
    \<and> (\<forall>(name, m) \<in> set (members v).
          shares_m (typed h') (case buffer of None \<Rightarrow> length (buffers h) | Some b \<Rightarrow> b) m)
    \<and> (\<forall>u \<in> set (views v).
          shares (typed h') (case buffer of None \<Rightarrow> length (buffers h) | Some b \<Rightarrow> b) u
          \<and> anchored (instances h) h' (case buffer of None \<Rightarrow> length (buffers h) | Some b \<Rightarrow> b) u
          \<and> (buffer_of u = Some (case buffer of None \<Rightarrow> length (buffers h) | Some b \<Rightarrow> b)
               \<or> buffer_of u = None)
          \<and> (\<forall>(name, m) \<in> set (members u).
                shares_m (typed h') (case buffer of None \<Rightarrow> length (buffers h) | Some b \<Rightarrow> b) m
                \<and> anchored_m (instances h) h'
                     (case buffer of None \<Rightarrow> length (buffers h) | Some b \<Rightarrow> b) m))
    \<and> (kept_below (instances h) h \<longrightarrow>
         (\<forall>u \<in> set (views v). \<forall>(name, m) \<in> set (members u). \<forall>x w.
             m = Vec x \<and> window h' x = Some w \<and> fits h' w
             \<and> byteOffset w mod BYTES_PER_ELEMENT (ta_type w) = 0 \<longrightarrow>
             intact h' x
             \<and> ta_buffer w = (case buffer of None \<Rightarrow> length (buffers h) | Some b \<Rightarrow> b)))
    \<and> (\<forall>K h1 b desc desc' pos t x.
          b < length (buffers h1) \<and> ToIndex pos + BYTES_PER_ELEMENT t \<le> byteLength h1 b
          \<and> setter_kind (setter desc) = t \<and> getter_kind (getter desc') = t \<longrightarrow>
          (case native_conversion K t x of
             Inl e \<Rightarrow> scalar_set K h1 (Accessor b desc pos) x = Inl e
           | Inr y \<Rightarrow> (\<exists>h2. scalar_set K h1 (Accessor b desc pos) x = Inr h2
                          \<and> scalar_get K h2 (Accessor b desc' pos) = Inr y)))
    \<and> (\<forall>K h1 m w arr h2 k a.
          intact h1 m \<and> window h1 m = Some w \<and> vector_set K h1 m arr = Inr h2
          \<and> k < ta_length w \<and> place_get a = place w k \<longrightarrow>
          scalar_get K h2 a
            = native_conversion K (ta_type w) (if k < length arr then arr ! k else Undefined))
    \<and> (\<forall>K h1 m w k a x h2.
          intact h1 m \<and> window h1 m = Some w \<and> k < ta_length w \<and> place_set a = place w k
          \<and> scalar_set K h1 a x = Inr h2 \<longrightarrow>
          vector_elem K h2 m k = native_conversion K (ta_type w) x)
    \<and> (\<forall>K h1 m w arr h2 m' w' k k'.
          intact h1 m \<and> window h1 m = Some w \<and> vector_set K h1 m arr = Inr h2
          \<and> intact h1 m' \<and> window h1 m' = Some w'
          \<and> (\<forall>s. slot m = Some s \<and> slot m' = Some s \<longrightarrow> w' = w)
          \<and> k < ta_length w \<and> k' < ta_length w' \<and> place w' k' = place w k \<longrightarrow>
          vector_elem K h2 m' k'
            = native_conversion K (ta_type w) (if k < length arr then arr ! k else Undefined))"
proof -
  let ?b = "case buffer of None \<Rightarrow> length (buffers h) | Some b \<Rightarrow> b"
  note b = create_bind [OF assms]
  note a = create_anchored [OF assms]
  have s: "shares (typed h') ?b v" by (rule bind_shares(1) [OF b])
  have 2: "buffer_of v = Some ?b" by (rule bind_buffer_of [OF b])
  have 3: "\<forall>(name, m) \<in> set (members v). shares_m (typed h') ?b m"
    using shares_members [OF s] by auto
  have 4: "\<forall>u \<in> set (views v).
          shares (typed h') ?b u \<and> anchored (instances h) h' ?b u
          \<and> (buffer_of u = Some ?b \<or> buffer_of u = None)
          \<and> (\<forall>(name, m) \<in> set (members u).
                shares_m (typed h') ?b m \<and> anchored_m (instances h) h' ?b m)"
  proof
    fix u assume "u \<in> set (views v)"
    then have au: "anchored (instances h) h' ?b u" by (rule anchored_views(1) [OF a(1)])
    have "shares_m (typed h') ?b m \<and> anchored_m (instances h) h' ?b m"
      if "(name, m) \<in> set (members u)" for name m
      using anchored_members [OF au that] anchored_shares(2) by blast
    then show "shares (typed h') ?b u \<and> anchored (instances h) h' ?b u
          \<and> (buffer_of u = Some ?b \<or> buffer_of u = None)
          \<and> (\<forall>(name, m) \<in> set (members u).
                shares_m (typed h') ?b m \<and> anchored_m (instances h) h' ?b m)"
      using au anchored_shares(1) [OF au] anchored_buffer_of [OF au] by auto
  qed
  have 5: "kept_below (instances h) h \<longrightarrow>
         (\<forall>u \<in> set (views v). \<forall>(name, m) \<in> set (members u). \<forall>x w.
             m = Vec x \<and> window h' x = Some w \<and> fits h' w
             \<and> byteOffset w mod BYTES_PER_ELEMENT (ta_type w) = 0 \<longrightarrow>
             intact h' x \<and> ta_buffer w = ?b)"
  proof
    assume "kept_below (instances h) h"
    then have k: "kept_below (instances h) h'" using a(2) by (simp add: kept_below_def)
    show "\<forall>u \<in> set (views v). \<forall>(name, m) \<in> set (members u). \<forall>x w.
             m = Vec x \<and> window h' x = Some w \<and> fits h' w
             \<and> byteOffset w mod BYTES_PER_ELEMENT (ta_type w) = 0 \<longrightarrow>
             intact h' x \<and> ta_buffer w = ?b"
    proof (intro ballI)
      fix u nm assume u: "u \<in> set (views v)" and nm: "nm \<in> set (members u)"
      obtain name m where p: "nm = (name, m)" by (cases nm)
      have au: "anchored (instances h) h' ?b u" using u by (rule anchored_views(1) [OF a(1)])
      have "intact h' x \<and> ta_buffer w = ?b"
        if "m = Vec x \<and> window h' x = Some w \<and> fits h' w
             \<and> byteOffset w mod BYTES_PER_ELEMENT (ta_type w) = 0" for x w
      proof -
        from that nm p have "(name, Vec x) \<in> set (members u)" by simp
        with au have am: "anchored_m (instances h) h' ?b (Vec x)" by (rule anchored_members)
        from that have W: "window h' x = Some w" by (rule conjunct2 [THEN conjunct1])
        from that have F: "fits h' w" by (rule conjunct2 [THEN conjunct2, THEN conjunct1])
        from that have AL: "byteOffset w mod BYTES_PER_ELEMENT (ta_type w) = 0"
          by (rule conjunct2 [THEN conjunct2, THEN conjunct2])
        show ?thesis by (rule anchored_intact [OF am k W F AL])
      qed
      then show "case nm of (name, m) \<Rightarrow> \<forall>x w.
             m = Vec x \<and> window h' x = Some w \<and> fits h' w
             \<and> byteOffset w mod BYTES_PER_ELEMENT (ta_type w) = 0 \<longrightarrow>
             intact h' x \<and> ta_buffer w = ?b"
        unfolding p prod.case by (intro allI impI)
    qed
  qed
  have 6: "\<forall>K h1 b desc desc' pos t x.
          b < length (buffers h1) \<and> ToIndex pos + BYTES_PER_ELEMENT t \<le> byteLength h1 b
          \<and> setter_kind (setter desc) = t \<and> getter_kind (getter desc') = t \<longrightarrow>
          (case native_conversion K t x of
             Inl e \<Rightarrow> scalar_set K h1 (Accessor b desc pos) x = Inl e
           | Inr y \<Rightarrow> (\<exists>h2. scalar_set K h1 (Accessor b desc pos) x = Inr h2
                          \<and> scalar_get K h2 (Accessor b desc' pos) = Inr y))"
  proof (intro allI impI)
    fix K h1 b and desc desc' :: PrimitiveDescriptor and pos t x
    assume "b < length (buffers h1) \<and> ToIndex pos + BYTES_PER_ELEMENT t \<le> byteLength h1 b
          \<and> setter_kind (setter desc) = t \<and> getter_kind (getter desc') = t"
    then show "case native_conversion K t x of
             Inl e \<Rightarrow> scalar_set K h1 (Accessor b desc pos) x = Inl e
           | Inr y \<Rightarrow> (\<exists>h2. scalar_set K h1 (Accessor b desc pos) x = Inr h2
                          \<and> scalar_get K h2 (Accessor b desc' pos) = Inr y)"
      by (intro scalar_write_read_alias) simp_all
  qed
  have 7: "\<forall>K h1 m w arr h2 k a.
          intact h1 m \<and> window h1 m = Some w \<and> vector_set K h1 m arr = Inr h2
          \<and> k < ta_length w \<and> place_get a = place w k \<longrightarrow>
          scalar_get K h2 a
            = native_conversion K (ta_type w) (if k < length arr then arr ! k else Undefined)"
    using vector_seen_by_scalar [unfolded at_arr_def] by blast
  have 8: "\<forall>K h1 m w k a x h2.
          intact h1 m \<and> window h1 m = Some w \<and> k < ta_length w \<and> place_set a = place w k
          \<and> scalar_set K h1 a x = Inr h2 \<longrightarrow>
          vector_elem K h2 m k = native_conversion K (ta_type w) x"
    using scalar_seen_by_vector by blast
  have 9: "\<forall>K h1 m w arr h2 m' w' k k'.
          intact h1 m \<and> window h1 m = Some w \<and> vector_set K h1 m arr = Inr h2
          \<and> intact h1 m' \<and> window h1 m' = Some w'
          \<and> (\<forall>s. slot m = Some s \<and> slot m' = Some s \<longrightarrow> w' = w)
          \<and> k < ta_length w \<and> k' < ta_length w' \<and> place w' k' = place w k \<longrightarrow>
          vector_elem K h2 m' k'
            = native_conversion K (ta_type w) (if k < length arr then arr ! k else Undefined)"
  proof (intro allI impI)
    fix K h1 m w arr h2 m' w' k k'
    assume A: "intact h1 m \<and> window h1 m = Some w \<and> vector_set K h1 m arr = Inr h2
          \<and> intact h1 m' \<and> window h1 m' = Some w'
          \<and> (\<forall>s. slot m = Some s \<and> slot m' = Some s \<longrightarrow> w' = w)
          \<and> k < ta_length w \<and> k' < ta_length w' \<and> place w' k' = place w k"
    show "vector_elem K h2 m' k'
            = native_conversion K (ta_type w) (if k < length arr then arr ! k else Undefined)"
    proof (rule vector_seen_by_vector [unfolded at_arr_def])
      show "intact h1 m" "window h1 m = Some w" "vector_set K h1 m arr = Inr h2"
        "intact h1 m'" "window h1 m' = Some w'" "k < ta_length w" "k' < ta_length w'"
        "place w' k' = place w k"
        using A by simp_all
      show "w' = w" if "slot m = Some s" "slot m' = Some s" for s
        using A that by blast
    qed
  qed
  from s 2 3 4 5 6 7 8 9 show ?thesis by (intro conjI)
qed

text \<open>
  The nested view \<^verbatim>\<open>inner\<close> shares buffer 0 with its parent, and 7 written to its field \<^verbatim>\<open>id\<close>
  reads back as 7. After the assignment of \<^verbatim>\<open>[1, 2, 3]\<close> to a vector field of three \<^verbatim>\<open>uint32\<close>
  at byte 0, a scalar \<^verbatim>\<open>uint32\<close> field at byte 4 of the same buffer reads 2.
\<close>

lemma create_shares_buffer_example:
  "shares [] 0 outer_ts \<and> buffer_of outer_ts = Some 0
   \<and> (\<exists>h2. scalar_set any_ieee (empty_heap\<lparr>buffers := [replicate 8 0], instances := 2\<rparr>)
               (Accessor 0 (p_get p_ts ''uint32'') (Num 4)) (Number 7) = Inr h2
          \<and> scalar_get any_ieee h2 (Accessor 0 (p_get p_ts ''uint32'') (Num 4)) = Inr (Number 7))
   \<and> (\<exists>h2. vector_set any_ieee (empty_heap\<lparr>buffers := [replicate 12 0], instances := 1\<rparr>)
               (Lazy 0 ''v'' 0 (Prim (p_get p_ts ''uint32'')) (Num 0) 3)
               [Number 1, Number 2, Number 3] = Inr h2
          \<and> scalar_get any_ieee h2 (Accessor 0 (p_get p_ts ''uint32'') (Num 4)) = Inr (Number 2))"
proof -
  note th = create_shares_buffer [OF create_Outer_ts(3)]
  have 1: "shares [] 0 outer_ts"
    using th [THEN conjunct1] by (simp add: empty_heap_def)
  have 2: "buffer_of outer_ts = Some 0"
    using th [THEN conjunct2, THEN conjunct1] by (simp add: empty_heap_def)
  have 3: "\<exists>h2. scalar_set any_ieee (empty_heap\<lparr>buffers := [replicate 8 0], instances := 2\<rparr>)
               (Accessor 0 (p_get p_ts ''uint32'') (Num 4)) (Number 7) = Inr h2
          \<and> scalar_get any_ieee h2 (Accessor 0 (p_get p_ts ''uint32'') (Num 4)) = Inr (Number 7)"
    using th [THEN conjunct2, THEN conjunct2, THEN conjunct2, THEN conjunct2, THEN conjunct2,
        THEN conjunct1, rule_format,
        of 0 "empty_heap\<lparr>buffers := [replicate 8 0], instances := 2\<rparr>" "Num 4" Uint32Array
          "p_get p_ts ''uint32''" "p_get p_ts ''uint32''" any_ieee "Number 7"]
    by (simp add: empty_heap_def byteLength_def BYTES_PER_ELEMENT_def p_get_def p_ts_def
        trunc_def wrap_u_def)
  let ?H = "empty_heap\<lparr>buffers := [replicate 12 0], instances := 1\<rparr>"
  let ?m = "Lazy 0 ''v'' 0 (Prim (p_get p_ts ''uint32'')) (Num 0) 3"
  let ?w = "\<lparr>ta_type = Uint32Array, ta_buffer = 0, byteOffset = 0, ta_length = 3\<rparr>"
  have w: "window ?H ?m = Some ?w" by (simp add: p_get_def p_ts_def)
  have i: "intact ?H ?m"
    by (simp add: intact_def fits_def p_get_def p_ts_def empty_heap_def byteLength_def
        BYTES_PER_ELEMENT_def)
  have "\<exists>h2. vector_set any_ieee ?H ?m [Number 1, Number 2, Number 3] = Inr h2"
    using vector_set_returns [OF i w, of "[Number 1, Number 2, Number 3]" any_ieee]
    by (simp add: at_arr_def nth_Cons')
  then obtain h2 where h2: "vector_set any_ieee ?H ?m [Number 1, Number 2, Number 3] = Inr h2" ..
  have p: "place_get (Accessor 0 (p_get p_ts ''uint32'') (Num 4)) = place ?w 1"
    by (simp add: place_def p_get_def p_ts_def BYTES_PER_ELEMENT_def)
  note vs = th [THEN conjunct2, THEN conjunct2, THEN conjunct2, THEN conjunct2, THEN conjunct2,
        THEN conjunct2, THEN conjunct1, rule_format]
  have k: "1 < ta_length ?w" by simp
  from i w h2 k p have "intact ?H ?m \<and> window ?H ?m = Some ?w
      \<and> vector_set any_ieee ?H ?m [Number 1, Number 2, Number 3] = Inr h2
      \<and> 1 < ta_length ?w
      \<and> place_get (Accessor 0 (p_get p_ts ''uint32'') (Num 4)) = place ?w 1"
    by (intro conjI)
  then have "scalar_get any_ieee h2 (Accessor 0 (p_get p_ts ''uint32'') (Num 4))
      = native_conversion any_ieee (ta_type ?w)
          (if 1 < length [Number 1, Number 2, Number 3] then [Number 1, Number 2, Number 3] ! 1
           else Undefined)"
    by (rule vs)
  then have "scalar_get any_ieee h2 (Accessor 0 (p_get p_ts ''uint32'') (Num 4)) = Inr (Number 2)"
    by (simp add: trunc_def wrap_u_def)
  with h2 have 4: "\<exists>h2. vector_set any_ieee ?H ?m [Number 1, Number 2, Number 3] = Inr h2
          \<and> scalar_get any_ieee h2 (Accessor 0 (p_get p_ts ''uint32'') (Num 4)) = Inr (Number 2)"
    by - (rule exI [of _ h2], intro conjI)
  from 1 2 3 4 show ?thesis by (intro conjI)
qed



section \<open>An array of three items\<close>

text \<open>
  An assignment to an intact vector field leaves every element of a vector field on other
  bytes as it was.
\<close>

lemma vector_set_other:
  assumes i: "intact h m" and w: "window h m = Some w" and s: "vector_set K h m arr = Inr h2"
    and i': "intact h m'" and w': "window h m' = Some w'"
    and same: "\<And>s. slot m = Some s \<Longrightarrow> slot m' = Some s \<Longrightarrow> w' = w"
    and apart: "ta_buffer w' \<noteq> ta_buffer w
        \<or> byteOffset w' + ta_length w' * BYTES_PER_ELEMENT (ta_type w') \<le> byteOffset w
        \<or> byteOffset w + ta_length w * BYTES_PER_ELEMENT (ta_type w) \<le> byteOffset w'"
  shows "vector_elem K h2 m' k = vector_elem K h m' k"
proof -
  note keep = vector_set_keeps [OF i w s i' w' same]
  define n where "n = BYTES_PER_ELEMENT (ta_type w')"
  have "read_bytes (buffers h2 ! ta_buffer w') (byteOffset w' + k * n) n
      = read_bytes (buffers h ! ta_buffer w') (byteOffset w' + k * n) n"
    if k: "k < ta_length w'"
  proof (rule read_bytes_eq)
    show "length (buffers h2 ! ta_buffer w') = length (buffers h ! ta_buffer w')"
      by (rule vector_set_frame(2) [OF i w s])
    fix j assume j: "byteOffset w' + k * n \<le> j" "j < byteOffset w' + k * n + n"
    have "Suc k * n \<le> ta_length w' * n"
      using k mult_le_mono1 [of "Suc k" "ta_length w'" n] by simp
    with j have "byteOffset w' \<le> j" "j < byteOffset w' + ta_length w' * n" by simp_all
    with apart have "ta_buffer w' \<noteq> ta_buffer w \<or> j < byteOffset w
         \<or> byteOffset w + ta_length w * BYTES_PER_ELEMENT (ta_type w) \<le> j"
      by (auto simp: n_def)
    then show "buffers h2 ! ta_buffer w' ! j = buffers h ! ta_buffer w' ! j"
      by (rule vector_set_frame(3) [OF i w s])
  qed
  then show ?thesis
    using vector_elem_intact [OF keep [THEN conjunct1] keep [THEN conjunct2], where K = K and k = k]
      vector_elem_intact [OF i' w', of K k]
    by (simp add: n_def)
qed

lemma create_items_ts:
  "array_ts (Desc Item_ts) (Val (Number 3)) = Inr (ArrayTs Item_ts 3)"
  "create (ArrayTs Item_ts 3) empty_heap None None
     = Inr (Arr (Some 0) [item_ts 0 0, item_ts 1 12, item_ts 2 24], heap_ts)"
  "members (item_ts 0 0) = [(''color'', Vec (color_ts 0 0))]"
  "members (item_ts 1 12) = [(''color'', Vec (color_ts 1 12))]"
  "members (item_ts 2 24) = [(''color'', Vec (color_ts 2 24))]"
  by (simp_all add: array_ts_def Item_ts_def create_def ArrayBuffer_def empty_heap_def
      item_ts_def color_ts_def heap_ts_def numeral_3_eq_3)

lemma create_items_js:
  "array_js (Desc Item_js) (Val (Number 3)) = Inr (ArrayJs Item_js 3 (Num 36))"
  "struct_js [(''items'', Desc (ArrayJs Item_js 3 (Num 36)))] = Inr Items_js"
  "create Items_js empty_heap None None
     = Inr (Inst 0 [(''items'', Own (Arr None [item_js 0, item_js 1, item_js 2]))], heap_js)"
  by (simp_all add: array_js_def struct_js_def Item_js_def Items_js_def create_def ArrayBuffer_def
      empty_heap_def item_js_def heap_js_def numeral_3_eq_3 new_Typed_def TypedArray_def p_get_def
      p_js_def BYTES_PER_ELEMENT_def byteLength_def entries_simps)

lemma window_color_ts:
  "window h (color_ts i p)
     = Some \<lparr>ta_type = Float32Array, ta_buffer = 0, byteOffset = p, ta_length = 3\<rparr>"
  by (simp add: color_ts_def p_get_def p_ts_def)

lemma slot_color_ts: "slot (color_ts i p) = Some (i, ''__color'')"
  by (simp add: color_ts_def)

lemma intact_heap_ts:
  "p = 0 \<or> p = 12 \<or> p = 24 \<Longrightarrow> intact heap_ts (color_ts i p)"
  by (auto simp: intact_def window_color_ts slot_color_ts fits_def heap_ts_def empty_heap_def
      byteLength_def BYTES_PER_ELEMENT_def)

lemma window_heap_js:
  "window heap_js (Window 0 3)
     = Some \<lparr>ta_type = Float32Array, ta_buffer = 0, byteOffset = 0, ta_length = 3\<rparr>"
  "window heap_js (Window 1 3)
     = Some \<lparr>ta_type = Float32Array, ta_buffer = 0, byteOffset = 12, ta_length = 3\<rparr>"
  "window heap_js (Window 2 3)
     = Some \<lparr>ta_type = Float32Array, ta_buffer = 0, byteOffset = 24, ta_length = 3\<rparr>"
  by (simp_all add: heap_js_def empty_heap_def)

lemma intact_heap_js:
  "ta < 3 \<Longrightarrow> intact heap_js (Window ta 3)"
proof -
  assume "ta < 3"
  then have "ta = 0 \<or> ta = 1 \<or> ta = 2" by auto
  then show ?thesis
    by (auto simp: intact_def window_heap_js fits_def heap_js_def empty_heap_def byteLength_def
        BYTES_PER_ELEMENT_def)
qed

lemma no_BigInt:
  assumes "\<forall>x \<in> set arr. \<forall>z. x \<noteq> BigInt z"
  shows "at_arr arr k \<noteq> BigInt z"
  using assms by (auto simp: at_arr_def)

text \<open>
  C9. The root view created from \<^verbatim>\<open>c.array(Item, 3)\<close>, where \<^verbatim>\<open>Item\<close> is a struct with one
  field \<^verbatim>\<open>color\<close> of three float32, has three items on one buffer of 36 bytes, their fields
  \<^verbatim>\<open>color\<close> intact with windows at bytes 0, 12 and 24. In every heap in which the field \<^verbatim>\<open>color\<close>
  of \<^verbatim>\<open>items[1]\<close> is intact, whatever the bytes of the buffers are, an assignment to it, from
  any source and with any floating-point encoding, changes no length and no byte of any
  buffer other than bytes 12 to 23 of buffer 0; the three elements read back as the native
  conversions of the elements of the source; the fields \<^verbatim>\<open>color\<close> of \<^verbatim>\<open>items[0]\<close> and
  \<^verbatim>\<open>items[2]\<close> stay intact and every element of them reads as before; and the assignment
  returns whenever the source holds no BigInt. In \<^verbatim>\<open>index.ts\<close> the root view is the array
  itself; an array descriptor of \<^verbatim>\<open>index.js\<close> has no \<^verbatim>\<open>create\<close>, and there the same holds for
  the array as the field \<^verbatim>\<open>items\<close> of a struct, in every heap in which the typed arrays of the
  three fields are those that \<^verbatim>\<open>create\<close> made.
\<close>

theorem array_item_frame:
  "array_ts (Desc Item_ts) (Val (Number 3)) = Inr (ArrayTs Item_ts 3)
   \<and> create (ArrayTs Item_ts 3) empty_heap None None
       = Inr (Arr (Some 0) [item_ts 0 0, item_ts 1 12, item_ts 2 24], heap_ts)
   \<and> members (item_ts 0 0) = [(''color'', Vec (color_ts 0 0))]
   \<and> members (item_ts 1 12) = [(''color'', Vec (color_ts 1 12))]
   \<and> members (item_ts 2 24) = [(''color'', Vec (color_ts 2 24))]
   \<and> intact heap_ts (color_ts 0 0) \<and> intact heap_ts (color_ts 1 12) \<and> intact heap_ts (color_ts 2 24)
   \<and> (\<forall>K h arr h2. intact h (color_ts 1 12) \<and> vector_set K h (color_ts 1 12) arr = Inr h2 \<longrightarrow>
         length (buffers h2) = length (buffers h)
         \<and> (\<forall>b. length (buffers h2 ! b) = length (buffers h ! b))
         \<and> (\<forall>b j. b \<noteq> 0 \<or> j < 12 \<or> 24 \<le> j \<longrightarrow> buffers h2 ! b ! j = buffers h ! b ! j)
         \<and> (\<forall>k<3. vector_elem K h2 (color_ts 1 12) k
                     = native_conversion K Float32Array (if k < length arr then arr ! k else Undefined))
         \<and> intact h2 (color_ts 1 12)
         \<and> (\<forall>i p k. (i = 0 \<and> p = 0 \<or> i = 2 \<and> p = 24) \<and> intact h (color_ts i p) \<longrightarrow>
               intact h2 (color_ts i p)
               \<and> vector_elem K h2 (color_ts i p) k = vector_elem K h (color_ts i p) k))
   \<and> (\<forall>K h arr. intact h (color_ts 1 12) \<and> (\<forall>x \<in> set arr. \<forall>z. x \<noteq> BigInt z) \<longrightarrow>
         (\<exists>h2. vector_set K h (color_ts 1 12) arr = Inr h2))
   \<and> array_js (Desc Item_js) (Val (Number 3)) = Inr (ArrayJs Item_js 3 (Num 36))
   \<and> struct_js [(''items'', Desc (ArrayJs Item_js 3 (Num 36)))] = Inr Items_js
   \<and> create Items_js empty_heap None None
       = Inr (Inst 0 [(''items'', Own (Arr None [item_js 0, item_js 1, item_js 2]))], heap_js)
   \<and> intact heap_js (Window 0 3) \<and> intact heap_js (Window 1 3) \<and> intact heap_js (Window 2 3)
   \<and> (\<forall>K h arr h2. intact h (Window 1 3) \<and> window h (Window 1 3) = window heap_js (Window 1 3)
           \<and> vector_set K h (Window 1 3) arr = Inr h2 \<longrightarrow>
         length (buffers h2) = length (buffers h)
         \<and> (\<forall>b. length (buffers h2 ! b) = length (buffers h ! b))
         \<and> (\<forall>b j. b \<noteq> 0 \<or> j < 12 \<or> 24 \<le> j \<longrightarrow> buffers h2 ! b ! j = buffers h ! b ! j)
         \<and> (\<forall>k<3. vector_elem K h2 (Window 1 3) k
                     = native_conversion K Float32Array (if k < length arr then arr ! k else Undefined))
         \<and> intact h2 (Window 1 3)
         \<and> (\<forall>ta k. (ta = 0 \<or> ta = 2) \<and> intact h (Window ta 3)
                 \<and> window h (Window ta 3) = window heap_js (Window ta 3) \<longrightarrow>
               intact h2 (Window ta 3)
               \<and> vector_elem K h2 (Window ta 3) k = vector_elem K h (Window ta 3) k))
   \<and> (\<forall>K h arr. intact h (Window 1 3) \<and> window h (Window 1 3) = window heap_js (Window 1 3)
           \<and> (\<forall>x \<in> set arr. \<forall>z. x \<noteq> BigInt z) \<longrightarrow>
         (\<exists>h2. vector_set K h (Window 1 3) arr = Inr h2))"
proof -
  let ?w = "\<lambda>p. \<lparr>ta_type = Float32Array, ta_buffer = 0, byteOffset = p, ta_length = 3\<rparr>"
  have ts: "length (buffers h2) = length (buffers h)
         \<and> (\<forall>b. length (buffers h2 ! b) = length (buffers h ! b))
         \<and> (\<forall>b j. b \<noteq> 0 \<or> j < 12 \<or> 24 \<le> j \<longrightarrow> buffers h2 ! b ! j = buffers h ! b ! j)
         \<and> (\<forall>k<3. vector_elem K h2 (color_ts 1 12) k
                     = native_conversion K Float32Array (if k < length arr then arr ! k else Undefined))
         \<and> intact h2 (color_ts 1 12)
         \<and> (\<forall>i p k. (i = 0 \<and> p = 0 \<or> i = 2 \<and> p = 24) \<and> intact h (color_ts i p) \<longrightarrow>
               intact h2 (color_ts i p)
               \<and> vector_elem K h2 (color_ts i p) k = vector_elem K h (color_ts i p) k)"
    if A: "intact h (color_ts 1 12) \<and> vector_set K h (color_ts 1 12) arr = Inr h2" for K h arr h2
  proof -
    from A have i: "intact h (color_ts 1 12)" and s: "vector_set K h (color_ts 1 12) arr = Inr h2"
      by simp_all
    note w = window_color_ts [of h 1 12]
    have 1: "length (buffers h2) = length (buffers h)"
      by (rule vector_set_frame(1) [OF i w s])
    have 2: "\<forall>b. length (buffers h2 ! b) = length (buffers h ! b)"
      using vector_set_frame(2) [OF i w s] by simp
    have 3: "\<forall>b j. b \<noteq> 0 \<or> j < 12 \<or> 24 \<le> j \<longrightarrow> buffers h2 ! b ! j = buffers h ! b ! j"
      using vector_set_frame(3) [OF i w s] by (simp add: BYTES_PER_ELEMENT_def)
    have self: "\<And>s. slot (color_ts 1 12) = Some s \<Longrightarrow> slot (color_ts 1 12) = Some s \<Longrightarrow> ?w 12 = ?w 12"
      by simp
    have 4: "\<forall>k<3. vector_elem K h2 (color_ts 1 12) k
                     = native_conversion K Float32Array (if k < length arr then arr ! k else Undefined)"
      using vector_seen_by_vector [OF i w s i w self, where k = k and k' = k for k]
      by (simp add: at_arr_def)
    have 5: "intact h2 (color_ts 1 12)"
      using vector_set_keeps [OF i w s i w self] by simp
    have 6: "\<forall>i p k. (i = 0 \<and> p = 0 \<or> i = 2 \<and> p = 24) \<and> intact h (color_ts i p) \<longrightarrow>
               intact h2 (color_ts i p)
               \<and> vector_elem K h2 (color_ts i p) k = vector_elem K h (color_ts i p) k"
    proof (intro allI impI)
      fix j p k
      assume B: "(j = 0 \<and> p = 0 \<or> j = 2 \<and> p = 24) \<and> intact h (color_ts j p)"
      then have i': "intact h (color_ts j p)" and jp: "j = 0 \<and> p = 0 \<or> j = 2 \<and> p = 24"
        by simp_all
      note w' = window_color_ts [of h j p]
      have other: "\<And>s. slot (color_ts 1 12) = Some s \<Longrightarrow> slot (color_ts j p) = Some s \<Longrightarrow> ?w p = ?w 12"
        using jp by (auto simp: slot_color_ts)
      have apart: "ta_buffer (?w p) \<noteq> ta_buffer (?w 12)
        \<or> byteOffset (?w p) + ta_length (?w p) * BYTES_PER_ELEMENT (ta_type (?w p)) \<le> byteOffset (?w 12)
        \<or> byteOffset (?w 12) + ta_length (?w 12) * BYTES_PER_ELEMENT (ta_type (?w 12)) \<le> byteOffset (?w p)"
        using jp by (auto simp: BYTES_PER_ELEMENT_def)
      show "intact h2 (color_ts j p)
               \<and> vector_elem K h2 (color_ts j p) k = vector_elem K h (color_ts j p) k"
        using vector_set_keeps [OF i w s i' w' other]
          vector_set_other [OF i w s i' w' other apart, where k = k]
        by simp
    qed
    from 1 2 3 4 5 6 show ?thesis by (intro conjI)
  qed
  have tts: "\<exists>h2. vector_set K h (color_ts 1 12) arr = Inr h2"
    if "intact h (color_ts 1 12) \<and> (\<forall>x \<in> set arr. \<forall>z. x \<noteq> BigInt z)" for K h arr
  proof -
    from that have i: "intact h (color_ts 1 12)" and a: "\<forall>x \<in> set arr. \<forall>z. x \<noteq> BigInt z"
      by simp_all
    show ?thesis
      by (rule vector_set_returns [OF i window_color_ts no_BigInt [OF a]]) simp_all
  qed
  have js: "length (buffers h2) = length (buffers h)
         \<and> (\<forall>b. length (buffers h2 ! b) = length (buffers h ! b))
         \<and> (\<forall>b j. b \<noteq> 0 \<or> j < 12 \<or> 24 \<le> j \<longrightarrow> buffers h2 ! b ! j = buffers h ! b ! j)
         \<and> (\<forall>k<3. vector_elem K h2 (Window 1 3) k
                     = native_conversion K Float32Array (if k < length arr then arr ! k else Undefined))
         \<and> intact h2 (Window 1 3)
         \<and> (\<forall>ta k. (ta = 0 \<or> ta = 2) \<and> intact h (Window ta 3)
                 \<and> window h (Window ta 3) = window heap_js (Window ta 3) \<longrightarrow>
               intact h2 (Window ta 3)
               \<and> vector_elem K h2 (Window ta 3) k = vector_elem K h (Window ta 3) k)"
    if A: "intact h (Window 1 3) \<and> window h (Window 1 3) = window heap_js (Window 1 3)
           \<and> vector_set K h (Window 1 3) arr = Inr h2" for K h arr h2
  proof -
    from A have i: "intact h (Window 1 3)" by (rule conjunct1)
    from A have s: "vector_set K h (Window 1 3) arr = Inr h2" by (rule conjunct2 [THEN conjunct2])
    from A have w0: "window h (Window 1 3) = window heap_js (Window 1 3)"
      by (rule conjunct2 [THEN conjunct1])
    have w: "window h (Window 1 3) = Some (?w 12)"
      unfolding w0 by (rule window_heap_js(2))
    have 1: "length (buffers h2) = length (buffers h)"
      by (rule vector_set_frame(1) [OF i w s])
    have 2: "\<forall>b. length (buffers h2 ! b) = length (buffers h ! b)"
      using vector_set_frame(2) [OF i w s] by simp
    have 3: "\<forall>b j. b \<noteq> 0 \<or> j < 12 \<or> 24 \<le> j \<longrightarrow> buffers h2 ! b ! j = buffers h ! b ! j"
      using vector_set_frame(3) [OF i w s] by (simp add: BYTES_PER_ELEMENT_def)
    have self: "\<And>s. slot (Window 1 3) = Some s \<Longrightarrow> slot (Window 1 3) = Some s \<Longrightarrow> ?w 12 = ?w 12"
      by simp
    have 4: "\<forall>k<3. vector_elem K h2 (Window 1 3) k
                     = native_conversion K Float32Array (if k < length arr then arr ! k else Undefined)"
      using vector_seen_by_vector [OF i w s i w self, where k = k and k' = k for k]
      by (simp add: at_arr_def)
    have 5: "intact h2 (Window 1 3)"
      using vector_set_keeps [OF i w s i w self] by simp
    have 6: "\<forall>ta k. (ta = 0 \<or> ta = 2) \<and> intact h (Window ta 3)
                 \<and> window h (Window ta 3) = window heap_js (Window ta 3) \<longrightarrow>
               intact h2 (Window ta 3)
               \<and> vector_elem K h2 (Window ta 3) k = vector_elem K h (Window ta 3) k"
    proof (intro allI impI)
      fix ta k
      assume B: "(ta = 0 \<or> ta = 2) \<and> intact h (Window ta 3)
                 \<and> window h (Window ta 3) = window heap_js (Window ta 3)"
      define p :: nat where "p = (if ta = 0 then 0 else 24)"
      from B have t: "ta = 0 \<or> ta = 2" by (rule conjunct1)
      from B have i': "intact h (Window ta 3)" by (rule conjunct2 [THEN conjunct1])
      from B have w0': "window h (Window ta 3) = window heap_js (Window ta 3)"
        by (rule conjunct2 [THEN conjunct2])
      have w': "window h (Window ta 3) = Some (?w p)"
        unfolding w0' using t window_heap_js(1,3) by (auto simp only: p_def split: if_splits)
      have other: "\<And>s. slot (Window 1 3) = Some s \<Longrightarrow> slot (Window ta 3) = Some s \<Longrightarrow> ?w p = ?w 12"
        by simp
      have apart: "ta_buffer (?w p) \<noteq> ta_buffer (?w 12)
        \<or> byteOffset (?w p) + ta_length (?w p) * BYTES_PER_ELEMENT (ta_type (?w p)) \<le> byteOffset (?w 12)
        \<or> byteOffset (?w 12) + ta_length (?w 12) * BYTES_PER_ELEMENT (ta_type (?w 12)) \<le> byteOffset (?w p)"
        by (auto simp: BYTES_PER_ELEMENT_def p_def)
      show "intact h2 (Window ta 3)
               \<and> vector_elem K h2 (Window ta 3) k = vector_elem K h (Window ta 3) k"
        using vector_set_keeps [OF i w s i' w' other]
          vector_set_other [OF i w s i' w' other apart, where k = k]
        by simp
    qed
    from 1 2 3 4 5 6 show ?thesis by (intro conjI)
  qed
  have tjs: "\<exists>h2. vector_set K h (Window 1 3) arr = Inr h2"
    if "intact h (Window 1 3) \<and> window h (Window 1 3) = window heap_js (Window 1 3)
           \<and> (\<forall>x \<in> set arr. \<forall>z. x \<noteq> BigInt z)" for K h arr
  proof -
    from that have i: "intact h (Window 1 3)" by (rule conjunct1)
    from that have a: "\<forall>x \<in> set arr. \<forall>z. x \<noteq> BigInt z"
      by (rule conjunct2 [THEN conjunct2])
    from that have w0: "window h (Window 1 3) = window heap_js (Window 1 3)"
      by (rule conjunct2 [THEN conjunct1])
    have w: "window h (Window 1 3) = Some (?w 12)"
      unfolding w0 by (rule window_heap_js(2))
    show ?thesis
      by (rule vector_set_returns [OF i w no_BigInt [OF a]]) simp_all
  qed
  have its: "intact heap_ts (color_ts 0 0)" "intact heap_ts (color_ts 1 12)"
    "intact heap_ts (color_ts 2 24)"
    by (simp_all add: intact_heap_ts)
  have ijs: "intact heap_js (Window 0 3)" "intact heap_js (Window 1 3)" "intact heap_js (Window 2 3)"
    by (simp_all add: intact_heap_js)
  have ts': "\<forall>K h arr h2. intact h (color_ts 1 12) \<and> vector_set K h (color_ts 1 12) arr = Inr h2 \<longrightarrow>
         length (buffers h2) = length (buffers h)
         \<and> (\<forall>b. length (buffers h2 ! b) = length (buffers h ! b))
         \<and> (\<forall>b j. b \<noteq> 0 \<or> j < 12 \<or> 24 \<le> j \<longrightarrow> buffers h2 ! b ! j = buffers h ! b ! j)
         \<and> (\<forall>k<3. vector_elem K h2 (color_ts 1 12) k
                     = native_conversion K Float32Array (if k < length arr then arr ! k else Undefined))
         \<and> intact h2 (color_ts 1 12)
         \<and> (\<forall>i p k. (i = 0 \<and> p = 0 \<or> i = 2 \<and> p = 24) \<and> intact h (color_ts i p) \<longrightarrow>
               intact h2 (color_ts i p)
               \<and> vector_elem K h2 (color_ts i p) k = vector_elem K h (color_ts i p) k)"
    using ts by (intro allI impI)
  have tts': "\<forall>K h arr. intact h (color_ts 1 12) \<and> (\<forall>x \<in> set arr. \<forall>z. x \<noteq> BigInt z) \<longrightarrow>
         (\<exists>h2. vector_set K h (color_ts 1 12) arr = Inr h2)"
    using tts by (intro allI impI)
  have js': "\<forall>K h arr h2. intact h (Window 1 3) \<and> window h (Window 1 3) = window heap_js (Window 1 3)
           \<and> vector_set K h (Window 1 3) arr = Inr h2 \<longrightarrow>
         length (buffers h2) = length (buffers h)
         \<and> (\<forall>b. length (buffers h2 ! b) = length (buffers h ! b))
         \<and> (\<forall>b j. b \<noteq> 0 \<or> j < 12 \<or> 24 \<le> j \<longrightarrow> buffers h2 ! b ! j = buffers h ! b ! j)
         \<and> (\<forall>k<3. vector_elem K h2 (Window 1 3) k
                     = native_conversion K Float32Array (if k < length arr then arr ! k else Undefined))
         \<and> intact h2 (Window 1 3)
         \<and> (\<forall>ta k. (ta = 0 \<or> ta = 2) \<and> intact h (Window ta 3)
                 \<and> window h (Window ta 3) = window heap_js (Window ta 3) \<longrightarrow>
               intact h2 (Window ta 3)
               \<and> vector_elem K h2 (Window ta 3) k = vector_elem K h (Window ta 3) k)"
    using js by (intro allI impI)
  have tjs': "\<forall>K h arr. intact h (Window 1 3) \<and> window h (Window 1 3) = window heap_js (Window 1 3)
           \<and> (\<forall>x \<in> set arr. \<forall>z. x \<noteq> BigInt z) \<longrightarrow>
         (\<exists>h2. vector_set K h (Window 1 3) arr = Inr h2)"
    using tjs by (intro allI impI)
  from create_items_ts its ts' tts' create_items_js ijs js' tjs' show ?thesis
    by (intro conjI)
qed

text \<open>
  The assignment \<^verbatim>\<open>items[1].color = [0, 1, 0]\<close> of the tests, on a buffer whose 36 bytes are
  all 7: bytes 11 and 24 are still 7, and element 0 of the field \<^verbatim>\<open>color\<close> of \<^verbatim>\<open>items[0]\<close>
  reads as before.
\<close>

theorem array_item_frame_witness:
  "\<exists>h2. vector_set any_ieee (heap_ts\<lparr>buffers := [replicate 36 7]\<rparr>) (color_ts 1 12)
          [Number 0, Number 1, Number 0] = Inr h2
         \<and> length (buffers h2 ! 0) = 36
         \<and> buffers h2 ! 0 ! 11 = 7
         \<and> buffers h2 ! 0 ! 24 = 7
         \<and> vector_elem any_ieee h2 (color_ts 0 0) 0
             = vector_elem any_ieee (heap_ts\<lparr>buffers := [replicate 36 7]\<rparr>) (color_ts 0 0) 0"
proof -
  let ?H = "heap_ts\<lparr>buffers := [replicate 36 7]\<rparr>"
  note th = array_item_frame
  note fr = th [THEN conjunct2, THEN conjunct2, THEN conjunct2, THEN conjunct2, THEN conjunct2,
      THEN conjunct2, THEN conjunct2, THEN conjunct2, THEN conjunct1, rule_format]
  note tot = th [THEN conjunct2, THEN conjunct2, THEN conjunct2, THEN conjunct2, THEN conjunct2,
      THEN conjunct2, THEN conjunct2, THEN conjunct2, THEN conjunct2, THEN conjunct1, rule_format]
  have i: "intact ?H (color_ts i p)" if "p = 0 \<or> p = 12 \<or> p = 24" for i p
    using that
    by (auto simp: intact_def window_color_ts slot_color_ts fits_def heap_ts_def empty_heap_def
        byteLength_def BYTES_PER_ELEMENT_def)
  have "intact ?H (color_ts 1 12)
        \<and> (\<forall>x \<in> set [Number 0, Number 1, Number 0]. \<forall>z. x \<noteq> BigInt z)"
    using i [of 12 1] by simp
  then have "\<exists>h2. vector_set any_ieee ?H (color_ts 1 12) [Number 0, Number 1, Number 0] = Inr h2"
    by (rule tot)
  then obtain h2 where
    h2: "vector_set any_ieee ?H (color_ts 1 12) [Number 0, Number 1, Number 0] = Inr h2" ..
  from i [of 12 1] h2 have "intact ?H (color_ts 1 12)
      \<and> vector_set any_ieee ?H (color_ts 1 12) [Number 0, Number 1, Number 0] = Inr h2"
    by (intro conjI) simp_all
  note f = fr [OF this]
  from f have l: "length (buffers h2 ! 0) = length (buffers ?H ! 0)" by blast
  from f have b: "\<forall>b j. b \<noteq> 0 \<or> j < 12 \<or> 24 \<le> j \<longrightarrow> buffers h2 ! b ! j = buffers ?H ! b ! j"
    by blast
  from f have o: "\<forall>i p k. (i = 0 \<and> p = 0 \<or> i = 2 \<and> p = 24) \<and> intact ?H (color_ts i p) \<longrightarrow>
               intact h2 (color_ts i p)
               \<and> vector_elem any_ieee h2 (color_ts i p) k = vector_elem any_ieee ?H (color_ts i p) k"
    by blast
  have 1: "length (buffers h2 ! 0) = 36" using l by simp
  have 2: "buffers h2 ! 0 ! 11 = 7" using b [rule_format, of 0 11] by simp
  have 3: "buffers h2 ! 0 ! 24 = 7" using b [rule_format, of 0 24] by simp
  have 4: "vector_elem any_ieee h2 (color_ts 0 0) 0 = vector_elem any_ieee ?H (color_ts 0 0) 0"
    using o [rule_format, of 0 0 0] i [of 0 0] by simp
  from h2 1 2 3 4 show ?thesis by - (rule exI [of _ h2], intro conjI)
qed

section \<open>Vector fields\<close>

text \<open>
  For an intact vector field, a read returns the window of the field and makes at most that
  one typed array; the next read returns the same typed array and makes none; an
  assignment to the field does not replace the typed array, and its elements then read as
  the native conversions of the elements of the source; and an element written through
  the typed array is read through it at the next read of the field.
\<close>

lemma vector_window_stable:
  assumes i: "intact h m" and w: "window h m = Some w"
  shows "\<exists>ta h1. vector_get h m = Inr (TA ta, h1) \<and> typed h1 ! ta = w
      \<and> length (typed h1) \<le> Suc (length (typed h))
      \<and> vector_get h1 m = Inr (TA ta, h1)
      \<and> (\<forall>K arr h2. vector_set K h1 m arr = Inr h2 \<longrightarrow>
            vector_get h2 m = Inr (TA ta, h2) \<and> typed h2 = typed h1
            \<and> (\<forall>k < ta_length w. Inr (ta_get K h2 ta k)
                  = native_conversion K (ta_type w) (if k < length arr then arr ! k else Undefined)))
      \<and> (\<forall>K k x h2. k < ta_length w \<and> ta_set K h1 ta k x = Inr h2 \<longrightarrow>
            vector_get h2 m = Inr (TA ta, h2)
            \<and> Inr (ta_get K h2 ta k) = native_conversion K (ta_type w) x)"
proof -
  from vector_get_intact [OF i w] obtain ta h1 where
    A: "vector_get h m = Inr (TA ta, h1) \<and> ta < length (typed h1) \<and> typed h1 ! ta = w
          \<and> buffers h1 = buffers h \<and> expando h1 = expando h \<and> instances h1 = instances h
          \<and> (typed h1 = typed h \<and> cache h1 = cache h
              \<or> typed h1 = typed h @ [w]
                 \<and> (\<exists>s. slot m = Some s \<and> map_of (cache h) s = None \<and> cache h1 = (s, ta) # cache h))
          \<and> (\<forall>s. slot m = Some s \<longrightarrow> map_of (cache h1) s = Some ta)
          \<and> vector_get h1 m = Inr (TA ta, h1)"
    by blast
  from A have g: "vector_get h m = Inr (TA ta, h1)" and ta: "typed h1 ! ta = w"
    and g1: "vector_get h1 m = Inr (TA ta, h1)"
    and kept: "\<forall>s. slot m = Some s \<longrightarrow> map_of (cache h1) s = Some ta"
    by simp_all
  from A have alt: "typed h1 = typed h \<and> cache h1 = cache h
              \<or> typed h1 = typed h @ [w]
                 \<and> (\<exists>s. slot m = Some s \<and> map_of (cache h) s = None \<and> cache h1 = (s, ta) # cache h)"
    by (elim conjE)
  then have len: "length (typed h1) \<le> Suc (length (typed h))" by auto
  note k1 = intact_get [OF i w g]
  note i1 = k1 [THEN conjunct1] and w1 = k1 [THEN conjunct2]
  have f1: "fits h1 w" using i1 w1 by (simp add: intact_def)
  have name: "name \<noteq> ''view''" if "m = Lazy j name b elem pos n" for j name b elem pos n
    using w that by (simp split: if_splits)
  have again: "vector_get h2 m = Inr (TA ta, h2)"
    if "cache h2 = cache h1" for h2
  proof (cases m)
    case (Window x n)
    with g show ?thesis by simp
  next
    case (Lazy j name b elem pos n)
    show ?thesis using name [OF Lazy] kept that unfolding Lazy by simp
  qed
  have set: "vector_get h2 m = Inr (TA ta, h2) \<and> typed h2 = typed h1
            \<and> (\<forall>k < ta_length w. Inr (ta_get K h2 ta k)
                  = native_conversion K (ta_type w) (if k < length arr then arr ! k else Undefined))"
    if s: "vector_set K h1 m arr = Inr h2" for K arr h2
  proof -
    from s g1 have c: "copy K h1 ta arr (length_v m) 0 = Inr h2"
      by (simp add: vector_set_def)
    note fr = copy_frame [OF c]
    have g2: "vector_get h2 m = Inr (TA ta, h2)" using fr by (intro again) simp
    have self: "\<And>s. slot m = Some s \<Longrightarrow> slot m = Some s \<Longrightarrow> w = w" by simp
    have "Inr (ta_get K h2 ta k) = native_conversion K (ta_type w) (at_arr arr k)"
      if k: "k < ta_length w" for k
      using vector_seen_by_vector [OF i1 w1 s i1 w1 self k k refl] g2
      by (simp add: vector_elem_def)
    then show ?thesis using g2 fr by (simp add: at_arr_def)
  qed
  have elem: "vector_get h2 m = Inr (TA ta, h2)
            \<and> Inr (ta_get K h2 ta k) = native_conversion K (ta_type w) x"
    if B: "k < ta_length w \<and> ta_set K h1 ta k x = Inr h2" for K k x h2
  proof -
    from B have k: "k < ta_length (typed h1 ! ta)" and s: "ta_set K h1 ta k x = Inr h2"
      using ta by simp_all
    note fr = ta_set_frame [OF s]
    have f: "fits h1 (typed h1 ! ta)" using f1 ta by simp
    from ta_set_element [OF s f k] obtain bs where
      enc: "encode K (ta_type w) x = Inr bs"
      and rd: "read_bytes (buffers h2 ! ta_buffer w)
                (byteOffset w + k * BYTES_PER_ELEMENT (ta_type w))
                (BYTES_PER_ELEMENT (ta_type w)) = bs"
      using ta by auto
    have "ta_get K h2 ta k = decode K (ta_type w) bs"
      using rd fr ta k by (simp add: ta_get_def Let_def)
    then show ?thesis using decode_encode [OF enc] again [of h2] fr by simp
  qed
  from g ta len g1 set elem show ?thesis
    by (intro exI [of _ ta] exI [of _ h1] conjI allI impI) blast+
qed

lemma create_View:
  "struct_ts [(''view'', uint3_ts)] = Inr View_ts"
  "create View_ts empty_heap None None
     = Inr (Ctor 0 0 (Num 0) [Vector ''view'' (Prim (p_get p_ts ''uint32'')) 3 (Num 0)] [],
            empty_heap\<lparr>buffers := [replicate 12 0], instances := 1\<rparr>)"
  "members (Ctor 0 0 (Num 0) [Vector ''view'' (Prim (p_get p_ts ''uint32'')) 3 (Num 0)] [])
     = [(''view'', Vec (Lazy 0 ''view'' 0 (Prim (p_get p_ts ''uint32'')) (Num 0) 3))]"
  "struct_js [(''view'', uint3_js)] = Inr View_js"
  "create View_js empty_heap None None
     = Inr (Inst 0 [(''view'', Vec (Window 0 3))],
            empty_heap\<lparr>buffers := [replicate 12 0],
              typed := [\<lparr>ta_type = Uint32Array, ta_buffer = 0, byteOffset = 0, ta_length = 3\<rparr>]\<rparr>)"
  by (simp_all add: struct_ts_def struct_js_def uint3_ts_def uint3_js_def View_ts_def View_js_def
      create_def ArrayBuffer_def empty_heap_def new_Typed_def TypedArray_def p_get_def p_ts_def
      p_js_def BYTES_PER_ELEMENT_def byteLength_def entries_simps)

text \<open>
  C8. For every vector field of a view, reading the field twice returns the identical
  window, and an assignment copies the elements into that window. In \<^verbatim>\<open>index.ts\<close> the getter
  keeps the typed array of field \<^verbatim>\<open>name\<close> in the own property \<^verbatim>\<open>"__" + name\<close> of the instance,
  and the constructor keeps the DataView of the instance in \<^verbatim>\<open>__view\<close>. For the field \<^verbatim>\<open>view\<close>
  of \<^verbatim>\<open>c.struct({ view: c.uint3() })\<close> the getter finds \<^verbatim>\<open>__view\<close> and returns the DataView: no
  typed array is made, the assignment of \<^verbatim>\<open>[1, 2, 3]\<close> sets three properties of the DataView
  and writes no byte of the buffer, and element 0 then reads as the 1 that was stored.
  \<^verbatim>\<open>index.js\<close>, which keeps the typed array in a variable of the closure, returns the typed
  array and writes the twelve bytes.
\<close>

theorem vector_named_view:
  "struct_ts [(''view'', uint3_ts)] = Inr View_ts
   \<and> create View_ts empty_heap None None
       = Inr (Ctor 0 0 (Num 0) [Vector ''view'' (Prim (p_get p_ts ''uint32'')) 3 (Num 0)] [],
              empty_heap\<lparr>buffers := [replicate 12 0], instances := 1\<rparr>)
   \<and> members (Ctor 0 0 (Num 0) [Vector ''view'' (Prim (p_get p_ts ''uint32'')) 3 (Num 0)] [])
       = [(''view'', Vec (Lazy 0 ''view'' 0 (Prim (p_get p_ts ''uint32'')) (Num 0) 3))]
   \<and> vector_get (empty_heap\<lparr>buffers := [replicate 12 0], instances := 1\<rparr>)
        (Lazy 0 ''view'' 0 (Prim (p_get p_ts ''uint32'')) (Num 0) 3)
       = Inr (DV 0, empty_heap\<lparr>buffers := [replicate 12 0], instances := 1\<rparr>)
   \<and> vector_set any_ieee (empty_heap\<lparr>buffers := [replicate 12 0], instances := 1\<rparr>)
        (Lazy 0 ''view'' 0 (Prim (p_get p_ts ''uint32'')) (Num 0) 3) [Number 1, Number 2, Number 3]
       = Inr (empty_heap\<lparr>buffers := [replicate 12 0], instances := 1,
                expando := [((0, 2), Number 3), ((0, 1), Number 2), ((0, 0), Number 1)]\<rparr>)
   \<and> vector_elem any_ieee
        (empty_heap\<lparr>buffers := [replicate 12 0], instances := 1,
           expando := [((0, 2), Number 3), ((0, 1), Number 2), ((0, 0), Number 1)]\<rparr>)
        (Lazy 0 ''view'' 0 (Prim (p_get p_ts ''uint32'')) (Num 0) 3) 0 = Inr (Number 1)
   \<and> struct_js [(''view'', uint3_js)] = Inr View_js
   \<and> create View_js empty_heap None None
       = Inr (Inst 0 [(''view'', Vec (Window 0 3))],
              empty_heap\<lparr>buffers := [replicate 12 0],
                typed := [\<lparr>ta_type = Uint32Array, ta_buffer = 0, byteOffset = 0, ta_length = 3\<rparr>]\<rparr>)
   \<and> vector_get (empty_heap\<lparr>buffers := [replicate 12 0],
                typed := [\<lparr>ta_type = Uint32Array, ta_buffer = 0, byteOffset = 0, ta_length = 3\<rparr>]\<rparr>)
        (Window 0 3)
       = Inr (TA 0, empty_heap\<lparr>buffers := [replicate 12 0],
                typed := [\<lparr>ta_type = Uint32Array, ta_buffer = 0, byteOffset = 0, ta_length = 3\<rparr>]\<rparr>)
   \<and> vector_set any_ieee (empty_heap\<lparr>buffers := [replicate 12 0],
                typed := [\<lparr>ta_type = Uint32Array, ta_buffer = 0, byteOffset = 0, ta_length = 3\<rparr>]\<rparr>)
        (Window 0 3) [Number 1, Number 2, Number 3]
       = Inr (empty_heap\<lparr>buffers := [ [1, 0, 0, 0, 2, 0, 0, 0, 3, 0, 0, 0] ],
                typed := [\<lparr>ta_type = Uint32Array, ta_buffer = 0, byteOffset = 0, ta_length = 3\<rparr>]\<rparr>)"
proof -
  have 4: "vector_get (empty_heap\<lparr>buffers := [replicate 12 0], instances := 1\<rparr>)
        (Lazy 0 ''view'' 0 (Prim (p_get p_ts ''uint32'')) (Num 0) 3)
       = Inr (DV 0, empty_heap\<lparr>buffers := [replicate 12 0], instances := 1\<rparr>)"
    by simp
  have 5: "vector_set any_ieee (empty_heap\<lparr>buffers := [replicate 12 0], instances := 1\<rparr>)
        (Lazy 0 ''view'' 0 (Prim (p_get p_ts ''uint32'')) (Num 0) 3) [Number 1, Number 2, Number 3]
       = Inr (empty_heap\<lparr>buffers := [replicate 12 0], instances := 1,
                expando := [((0, 2), Number 3), ((0, 1), Number 2), ((0, 0), Number 1)]\<rparr>)"
    by (simp add: vector_set_def empty_heap_def at_arr_def numeral_3_eq_3)
  have 6: "vector_elem any_ieee
        (empty_heap\<lparr>buffers := [replicate 12 0], instances := 1,
           expando := [((0, 2), Number 3), ((0, 1), Number 2), ((0, 0), Number 1)]\<rparr>)
        (Lazy 0 ''view'' 0 (Prim (p_get p_ts ''uint32'')) (Num 0) 3) 0 = Inr (Number 1)"
    by (simp add: vector_elem_def empty_heap_def)
  have 9: "vector_get (empty_heap\<lparr>buffers := [replicate 12 0],
                typed := [\<lparr>ta_type = Uint32Array, ta_buffer = 0, byteOffset = 0, ta_length = 3\<rparr>]\<rparr>)
        (Window 0 3)
       = Inr (TA 0, empty_heap\<lparr>buffers := [replicate 12 0],
                typed := [\<lparr>ta_type = Uint32Array, ta_buffer = 0, byteOffset = 0, ta_length = 3\<rparr>]\<rparr>)"
    by simp
  have r: "replicate 12 (0 :: byte) = [0, 0, 0, 0, 0, 0, 0, 0, 0, 0, 0, 0]"
    by (simp add: numeral_eq_Suc)
  have t: "trunc 1 = 1" "trunc 2 = 2" "trunc 3 = 3" by (simp_all add: trunc_def)
  have four: "(4 :: nat) = Suc (Suc (Suc (Suc 0)))" by simp
  have lb: "le_bytes 4 n = [of_nat (n mod 256), of_nat (n div 256 mod 256),
      of_nat (n div 256 div 256 mod 256), of_nat (n div 256 div 256 div 256 mod 256)]" for n
    by (subst four) (simp only: le_bytes.simps)
  have e: "encode any_ieee Uint32Array (Number 1) = Inr [1, 0, 0, 0]"
    "encode any_ieee Uint32Array (Number 2) = Inr [2, 0, 0, 0]"
    "encode any_ieee Uint32Array (Number 3) = Inr [3, 0, 0, 0]"
    by (simp_all add: BYTES_PER_ELEMENT_def t lb)
  have 10: "vector_set any_ieee (empty_heap\<lparr>buffers := [replicate 12 0],
                typed := [\<lparr>ta_type = Uint32Array, ta_buffer = 0, byteOffset = 0, ta_length = 3\<rparr>]\<rparr>)
        (Window 0 3) [Number 1, Number 2, Number 3]
       = Inr (empty_heap\<lparr>buffers := [ [1, 0, 0, 0, 2, 0, 0, 0, 3, 0, 0, 0] ],
                typed := [\<lparr>ta_type = Uint32Array, ta_buffer = 0, byteOffset = 0, ta_length = 3\<rparr>]\<rparr>)"
    unfolding r
    by (simp add: vector_set_def empty_heap_def at_arr_def numeral_3_eq_3 ta_set_def
        BYTES_PER_ELEMENT_def write_bytes_def e del: encode.simps)
  from create_View(1,2,3) 4 5 6 create_View(4,5) 9 10 show ?thesis by (intro conjI)
qed

section \<open>The layout pass\<close>

text \<open>
  \<^verbatim>\<open>c.struct\<close> of \<^verbatim>\<open>index.js\<close> lays the fields out densely in the order of
  \<^verbatim>\<open>Object.entries\<close>, from offset 0, each field with the size of the data model, and the total
  size is the sum of the sizes. The order is that of the declaration when no field name is
  an array index.
\<close>

lemma entry_js_size:
  assumes "entry_js name t offset = Inr (f, offset')" and "made_by_array_js t"
  shows "offset_f f = offset \<and> offset' = plus_n offset (size_f f) \<and> name_f f = name"
  using assms
  by (cases "(name, t, offset)" rule: entry_js.cases) (auto split: if_splits)

lemma loop_js_packed:
  assumes "loop_js schema offset acc = Inr (flds, totalSize)"
    and "list_all (\<lambda>(name, t). made_by_array_js t) schema"
  shows "\<exists>new. flds = acc @ new \<and> packed offset new \<and> totalSize = total offset new
           \<and> map name_f new = map fst schema"
  using assms
proof (induction schema arbitrary: offset acc)
  case Nil
  then show ?case by simp
next
  case (Cons a schema)
  obtain name t where a: "a = (name, t)" by (cases a)
  from Cons.prems(1) a obtain f offset' where
    e: "entry_js name t offset = Inr (f, offset')"
    and l: "loop_js schema offset' (acc @ [f]) = Inr (flds, totalSize)"
    by (auto split: sum.splits)
  from Cons.prems(2) a have m: "made_by_array_js t"
    and ms: "list_all (\<lambda>(name, t). made_by_array_js t) schema" by simp_all
  note s = entry_js_size [OF e m]
  from Cons.IH [OF l ms] obtain new where
    new: "flds = (acc @ [f]) @ new" "packed offset' new" "totalSize = total offset' new"
      "map name_f new = map fst schema" by blast
  show ?case
    using new s a by (intro exI [of _ "f # new"]) simp
qed

lemma struct_js_packed:
  assumes "struct_js schema = Inr d"
    and "list_all (\<lambda>(name, t). made_by_array_js t) schema"
  shows "\<exists>flds. d = StructJs (total (Num 0) flds) flds \<and> packed (Num 0) flds
           \<and> map name_f flds = map fst (Object_entries schema)
           \<and> (list_all (\<lambda>(name, t). array_index name = None) schema
                \<longrightarrow> map name_f flds = map fst schema)"
proof -
  from assms(1) obtain flds totalSize where
    l: "loop_js (Object_entries schema) (Num 0) [] = Inr (flds, totalSize)"
    and d: "d = StructJs totalSize flds"
    by (auto simp: struct_js_def split: sum.splits)
  have "list_all (\<lambda>(name, t). made_by_array_js t) (Object_entries schema)"
    using assms(2) by (simp add: list_all_Object_entries)
  from loop_js_packed [OF l this] d show ?thesis
    by (auto simp: Object_entries_names)
qed

text \<open>
  C1. The layout pass gives an array-of-struct field the size of the element descriptor
  times the length. \<^verbatim>\<open>c.struct\<close> of \<^verbatim>\<open>index.ts\<close> reads the length from \<^verbatim>\<open>type.length\<close>, which
  the descriptor returned by its \<^verbatim>\<open>c.array\<close> does not have: for
  \<^verbatim>\<open>c.struct({ items: c.array(c.struct({ x: c.float() }), 2), y: c.float() })\<close> the recorded
  length is \<^verbatim>\<open>undefined\<close>, the element descriptor is the array descriptor itself, the offset
  of \<^verbatim>\<open>y\<close> and the total size are \<^verbatim>\<open>NaN\<close>. \<^verbatim>\<open>index.js\<close> gives length 2, offset 8 and size 12.
\<close>

theorem array_field_ts_nan:
  "struct_ts [(''x'', float_ts)] = Inr Elem_ts
   \<and> array_ts (Desc Elem_ts) (Val (Number 2)) = Inr (ArrayTs Elem_ts 2)
   \<and> struct_ts [(''items'', Desc (ArrayTs Elem_ts 2)), (''y'', float_ts)]
       = Inr (StructTs NaN
               [Array ''items'' (ArrayTs Elem_ts 2) None (Num 0),
                Scalar ''y'' (p_get p_ts ''float32'') NaN])
   \<and> struct_js [(''x'', float_js)] = Inr Elem_js
   \<and> array_js (Desc Elem_js) (Val (Number 2)) = Inr (ArrayJs Elem_js 2 (Num 8))
   \<and> struct_js [(''items'', Desc (ArrayJs Elem_js 2 (Num 8))), (''y'', float_js)]
       = Inr (StructJs (Num 12)
               [Array ''items'' Elem_js (Some 2) (Num 0),
                Scalar ''y'' (p_get p_js ''float32'') (Num 8)])"
  by (simp add: struct_ts_def struct_js_def array_ts_def array_js_def float_ts_def float_js_def
      Elem_ts_def Elem_js_def p_get_def p_ts_def p_js_def create_def ArrayBuffer_def empty_heap_def
      numeral_2_eq_2 entries_simps)

section \<open>c.array\<close>

text \<open>The size of the descriptor returned by \<^verbatim>\<open>c.array\<close> is the element size times the length.\<close>

lemma array_size:
  assumes "has_create d" and "0 < n"
  shows "array_js (Desc d) (Val (Number (of_nat n))) = Inr (ArrayJs d n (times_n (size_d d) (Num n)))"
    and "array_ts (Desc d) (Val (Number (of_nat n))) = Inr (ArrayTs d n)"
    and "size_d (ArrayTs d n) = times_n (size_d d) (Num n)"
  using assms by (simp_all add: array_js_def array_ts_def)

text \<open>
  C3. The descriptor returned by \<^verbatim>\<open>c.array(D, n)\<close> has size \<open>n\<close> times the size of \<open>D\<close>, can be
  a field of another schema, resolved as an array field of \<open>n\<close> elements, and can be
  instantiated by its own \<^verbatim>\<open>create\<close>, yielding \<open>n\<close> views. Each module does one half: the
  descriptor of \<^verbatim>\<open>index.ts\<close> is instantiated directly, but as a field it is resolved with length
  \<^verbatim>\<open>undefined\<close> and size \<^verbatim>\<open>NaN\<close>, and \<^verbatim>\<open>create\<close> of the enclosing struct throws; the descriptor
  of \<^verbatim>\<open>index.js\<close> is resolved as a field of 2 elements, but has no \<^verbatim>\<open>create\<close>, so that calling
  it throws a TypeError.
\<close>

theorem array_descriptor_halves:
  "array_ts (Desc Elem_ts) (Val (Number 2)) = Inr (ArrayTs Elem_ts 2)
   \<and> size_d (ArrayTs Elem_ts 2) = Num 8
   \<and> create (ArrayTs Elem_ts 2) empty_heap None None
       = Inr (Arr (Some 0)
               [Ctor 0 0 (Num 0) [Scalar ''x'' (p_get p_ts ''float32'') (Num 0)] [],
                Ctor 1 0 (Num 4) [Scalar ''x'' (p_get p_ts ''float32'') (Num 0)] []],
              empty_heap\<lparr>buffers := [replicate 8 0], instances := 2\<rparr>)
   \<and> struct_ts [(''items'', Desc (ArrayTs Elem_ts 2))]
       = Inr (StructTs NaN [Array ''items'' (ArrayTs Elem_ts 2) None (Num 0)])
   \<and> create (StructTs NaN [Array ''items'' (ArrayTs Elem_ts 2) None (Num 0)]) empty_heap None None
       = Inl (Error ''c.array: length must be a positive integer'')
   \<and> array_js (Desc Elem_js) (Val (Number 2)) = Inr (ArrayJs Elem_js 2 (Num 8))
   \<and> create (ArrayJs Elem_js 2 (Num 8)) empty_heap None None = Inl TypeError
   \<and> struct_js [(''items'', Desc (ArrayJs Elem_js 2 (Num 8)))]
       = Inr (StructJs (Num 8) [Array ''items'' Elem_js (Some 2) (Num 0)])
   \<and> create (StructJs (Num 8) [Array ''items'' Elem_js (Some 2) (Num 0)]) empty_heap None None
       = Inr (Inst 0 [(''items'', Own (Arr None
                 [Inst 0 [(''x'', Acc (Accessor 0 (p_get p_js ''float32'') (Num 0)))],
                  Inst 0 [(''x'', Acc (Accessor 0 (p_get p_js ''float32'') (Num 4)))]]))],
              empty_heap\<lparr>buffers := [replicate 8 0]\<rparr>)"
  by (simp add: struct_ts_def struct_js_def array_ts_def array_js_def
      Elem_ts_def Elem_js_def create_def ArrayBuffer_def empty_heap_def numeral_2_eq_2
      entries_simps)

section \<open>Vector fields in the layout pass\<close>

lemma loop_js_rel:
  "list_all2 (\<lambda>(n, t) (n', t'). n = n' \<and> entry_js n t = entry_js n t') xs ys \<Longrightarrow>
   loop_js xs offset acc = loop_js ys offset acc"
  by (induction arbitrary: offset acc rule: list_all2_induct) (auto split: sum.splits)

lemma loop_ts_rel:
  "list_all2 (\<lambda>(n, t) (n', t'). n = n' \<and> entry_ts n t = entry_ts n t') xs ys \<Longrightarrow>
   loop_ts xs offset acc = loop_ts ys offset acc"
  by (induction arbitrary: offset acc rule: list_all2_induct) (auto split: sum.splits)

lemma loop_js_cong:
  assumes "entry_js name t = entry_js name t'"
  shows "loop_js (Object_entries (pre @ (name, t) # post)) offset acc
       = loop_js (Object_entries (pre @ (name, t') # post)) offset acc"
proof -
  let ?R = "\<lambda>(n, t) (n', t'). n = n' \<and> entry_js n t = entry_js n t'"
  have r: "list_all2 ?R xs xs" for xs
    by (induction xs) auto
  have "list_all2 ?R (pre @ (name, t) # post) (pre @ (name, t') # post)"
    using assms r by (intro list_all2_appendI) simp_all
  then have "list_all2 ?R (Object_entries (pre @ (name, t) # post))
      (Object_entries (pre @ (name, t') # post))"
    by (rule list_all2_Object_entries [where R = "\<lambda>n t t'. entry_js n t = entry_js n t'"])
  then show ?thesis by (rule loop_js_rel)
qed

lemma loop_ts_cong:
  assumes "entry_ts name t = entry_ts name t'"
  shows "loop_ts (Object_entries (pre @ (name, t) # post)) offset acc
       = loop_ts (Object_entries (pre @ (name, t') # post)) offset acc"
proof -
  let ?R = "\<lambda>(n, t) (n', t'). n = n' \<and> entry_ts n t = entry_ts n t'"
  have r: "list_all2 ?R xs xs" for xs
    by (induction xs) auto
  have "list_all2 ?R (pre @ (name, t) # post) (pre @ (name, t') # post)"
    using assms r by (intro list_all2_appendI) simp_all
  then have "list_all2 ?R (Object_entries (pre @ (name, t) # post))
      (Object_entries (pre @ (name, t') # post))"
    by (rule list_all2_Object_entries [where R = "\<lambda>n t t'. entry_ts n t = entry_ts n t'"])
  then show ?thesis by (rule loop_ts_rel)
qed

text \<open>
  C10. A field declared as a list whose first element is a primitive descriptor is
  resolved, by both modules and without an error, as a vector of that element: the entry
  holds element 0 and the length of the list, and its size is the size of element 0 times
  the length. The other elements are not inspected, whatever values they are: two lists of
  the same length with the same first element give the same descriptor, whatever the schema
  around the field. The typed array bound to the field has the array type of element 0 and
  the length of the list (in \<^verbatim>\<open>index.js\<close> made by \<^verbatim>\<open>create\<close>, in \<^verbatim>\<open>index.ts\<close> by the first read;
  there the getter of a field named \<^verbatim>\<open>view\<close> finds the own property \<^verbatim>\<open>__view\<close> and returns the
  DataView of the instance, without making a typed array).
\<close>

theorem vector_first_element:
  "entry_js name (List (Prim elem # rest)) offset
     = Inr (Vector name (Prim elem) (Suc (length rest)) offset,
            plus_n offset (Num (size_p elem * Suc (length rest))))
   \<and> entry_ts name (List (Prim elem # rest)) offset
     = Inr (Vector name (Prim elem) (Suc (length rest)) offset,
            plus_n offset (Num (size_p elem * Suc (length rest))))
   \<and> (length rest = length rest' \<longrightarrow>
        struct_js (pre @ (name, List (Prim elem # rest)) # post)
          = struct_js (pre @ (name, List (Prim elem # rest')) # post)
        \<and> struct_ts (pre @ (name, List (Prim elem # rest)) # post)
          = struct_ts (pre @ (name, List (Prim elem # rest')) # post))
   \<and> struct_js [(name, List (Prim elem # rest))]
       = Inr (StructJs (Num (size_p elem * Suc (length rest)))
               [Vector name (Prim elem) (Suc (length rest)) (Num 0)])
   \<and> struct_ts [(name, List (Prim elem # rest))]
       = Inr (StructTs (Num (size_p elem * Suc (length rest)))
               [Vector name (Prim elem) (Suc (length rest)) (Num 0)])
   \<and> (\<forall>v h'. create (StructJs (Num (size_p elem * Suc (length rest)))
                    [Vector name (Prim elem) (Suc (length rest)) (Num 0)]) empty_heap None None = Inr (v, h')
          \<longrightarrow> v = Inst 0 [(name, Vec (Window 0 (Suc (length rest))))]
              \<and> typed h' = [\<lparr>ta_type = arrayType elem, ta_buffer = 0, byteOffset = 0,
                              ta_length = Suc (length rest)\<rparr>])
   \<and> create (StructTs (Num (size_p elem * Suc (length rest)))
                [Vector name (Prim elem) (Suc (length rest)) (Num 0)]) empty_heap None None
       = Inr (Ctor 0 0 (Num 0) [Vector name (Prim elem) (Suc (length rest)) (Num 0)] [],
              empty_heap\<lparr>buffers := [replicate (size_p elem * Suc (length rest)) 0], instances := 1\<rparr>)
   \<and> members (Ctor 0 0 (Num 0) [Vector name (Prim elem) (Suc (length rest)) (Num 0)] [])
       = [(name, Vec (Lazy 0 name 0 (Prim elem) (Num 0) (Suc (length rest))))]
   \<and> (\<forall>g h1. vector_get (empty_heap\<lparr>buffers := [replicate (size_p elem * Suc (length rest)) 0],
                                         instances := 1\<rparr>)
                  (Lazy 0 name 0 (Prim elem) (Num 0) (Suc (length rest))) = Inr (g, h1)
          \<longrightarrow> (if name = ''view'' then g = DV 0 \<and> typed h1 = []
               else g = TA 0 \<and> typed h1 = [\<lparr>ta_type = arrayType elem, ta_buffer = 0, byteOffset = 0,
                                                ta_length = Suc (length rest)\<rparr>]))"
proof -
  have ej: "entry_js name (List (Prim elem # rest)) = entry_js name (List (Prim elem # rest'))"
    and et: "entry_ts name (List (Prim elem # rest)) = entry_ts name (List (Prim elem # rest'))"
    if "length rest = length rest'"
    using that by (simp_all add: fun_eq_iff)
  have 1: "entry_js name (List (Prim elem # rest)) offset
     = Inr (Vector name (Prim elem) (Suc (length rest)) offset,
            plus_n offset (Num (size_p elem * Suc (length rest))))"
    by simp
  have 2: "entry_ts name (List (Prim elem # rest)) offset
     = Inr (Vector name (Prim elem) (Suc (length rest)) offset,
            plus_n offset (Num (size_p elem * Suc (length rest))))"
    by simp
  have 3: "length rest = length rest' \<longrightarrow>
        struct_js (pre @ (name, List (Prim elem # rest)) # post)
          = struct_js (pre @ (name, List (Prim elem # rest')) # post)
        \<and> struct_ts (pre @ (name, List (Prim elem # rest)) # post)
          = struct_ts (pre @ (name, List (Prim elem # rest')) # post)"
  proof (intro impI conjI)
    assume l: "length rest = length rest'"
    show "struct_js (pre @ (name, List (Prim elem # rest)) # post)
          = struct_js (pre @ (name, List (Prim elem # rest')) # post)"
      unfolding struct_js_def
      using loop_js_cong [OF ej [OF l], where pre = pre and post = post and offset = "Num 0" and acc = "[]"]
      by simp
    show "struct_ts (pre @ (name, List (Prim elem # rest)) # post)
          = struct_ts (pre @ (name, List (Prim elem # rest')) # post)"
      unfolding struct_ts_def
      using loop_ts_cong [OF et [OF l], where pre = pre and post = post and offset = "Num 0" and acc = "[]"]
      by simp
  qed
  have 4: "struct_js [(name, List (Prim elem # rest))]
       = Inr (StructJs (Num (size_p elem * Suc (length rest)))
               [Vector name (Prim elem) (Suc (length rest)) (Num 0)])"
    by (simp add: struct_js_def Object_entries_single)
  have 5: "struct_ts [(name, List (Prim elem # rest))]
       = Inr (StructTs (Num (size_p elem * Suc (length rest)))
               [Vector name (Prim elem) (Suc (length rest)) (Num 0)])"
    by (simp add: struct_ts_def Object_entries_single)
  have 6: "\<forall>v h'. create (StructJs (Num (size_p elem * Suc (length rest)))
                    [Vector name (Prim elem) (Suc (length rest)) (Num 0)]) empty_heap None None = Inr (v, h')
          \<longrightarrow> v = Inst 0 [(name, Vec (Window 0 (Suc (length rest))))]
              \<and> typed h' = [\<lparr>ta_type = arrayType elem, ta_buffer = 0, byteOffset = 0,
                              ta_length = Suc (length rest)\<rparr>]"
    by (auto simp: create_def ArrayBuffer_def empty_heap_def new_Typed_def TypedArray_def
        split: sum.splits if_splits)
  have 7: "create (StructTs (Num (size_p elem * Suc (length rest)))
                [Vector name (Prim elem) (Suc (length rest)) (Num 0)]) empty_heap None None
       = Inr (Ctor 0 0 (Num 0) [Vector name (Prim elem) (Suc (length rest)) (Num 0)] [],
              empty_heap\<lparr>buffers := [replicate (size_p elem * Suc (length rest)) 0], instances := 1\<rparr>)"
    by (simp add: create_def ArrayBuffer_def empty_heap_def)
  have 8: "members (Ctor 0 0 (Num 0) [Vector name (Prim elem) (Suc (length rest)) (Num 0)] [])
       = [(name, Vec (Lazy 0 name 0 (Prim elem) (Num 0) (Suc (length rest))))]"
    by simp
  have 9: "\<forall>g h1. vector_get (empty_heap\<lparr>buffers := [replicate (size_p elem * Suc (length rest)) 0],
                                         instances := 1\<rparr>)
                  (Lazy 0 name 0 (Prim elem) (Num 0) (Suc (length rest))) = Inr (g, h1)
          \<longrightarrow> (if name = ''view'' then g = DV 0 \<and> typed h1 = []
               else g = TA 0 \<and> typed h1 = [\<lparr>ta_type = arrayType elem, ta_buffer = 0, byteOffset = 0,
                                                ta_length = Suc (length rest)\<rparr>])"
    by (auto simp: empty_heap_def new_Typed_def TypedArray_def split: sum.splits if_splits)
  from 1 2 3 4 5 6 7 8 9 show ?thesis by (intro conjI)
qed

text \<open>
  The list \<^verbatim>\<open>[p.float32, p.uint16]\<close> is laid out as two \<^verbatim>\<open>float32\<close>: 8 bytes, the descriptor of
  \<^verbatim>\<open>[p.float32, p.float32]\<close>.
\<close>

theorem vector_first_element_witness:
  "struct_ts [(''v'', List [Prim (p_get p_ts ''float32''), Prim (p_get p_ts ''uint16'')])]
     = struct_ts [(''v'', List [Prim (p_get p_ts ''float32''), Prim (p_get p_ts ''float32'')])]
   \<and> struct_ts [(''v'', List [Prim (p_get p_ts ''float32''), Prim (p_get p_ts ''uint16'')])]
     = Inr (StructTs (Num 8) [Vector ''v'' (Prim (p_get p_ts ''float32'')) 2 (Num 0)])
   \<and> struct_js [(''v'', List [Prim (p_get p_js ''float32''), Prim (p_get p_js ''uint16'')])]
     = Inr (StructJs (Num 8) [Vector ''v'' (Prim (p_get p_js ''float32'')) 2 (Num 0)])"
proof -
  note th = vector_first_element [of "''v''" "p_get p_ts ''float32''" "[Prim (p_get p_ts ''uint16'')]" _
      "[Prim (p_get p_ts ''float32'')]" "[]" "[]"]
  note th' = vector_first_element [of "''v''" "p_get p_js ''float32''" "[Prim (p_get p_js ''uint16'')]" _
      "[Prim (p_get p_js ''float32'')]" "[]" "[]"]
  have 1: "struct_ts [(''v'', List [Prim (p_get p_ts ''float32''), Prim (p_get p_ts ''uint16'')])]
     = struct_ts [(''v'', List [Prim (p_get p_ts ''float32''), Prim (p_get p_ts ''float32'')])]"
    using th [THEN conjunct2, THEN conjunct2, THEN conjunct1] by simp
  have 2: "struct_ts [(''v'', List [Prim (p_get p_ts ''float32''), Prim (p_get p_ts ''uint16'')])]
     = Inr (StructTs (Num 8) [Vector ''v'' (Prim (p_get p_ts ''float32'')) 2 (Num 0)])"
    using th [THEN conjunct2, THEN conjunct2, THEN conjunct2, THEN conjunct2, THEN conjunct1]
    by (simp add: p_get_def p_ts_def numeral_2_eq_2)
  have 3: "struct_js [(''v'', List [Prim (p_get p_js ''float32''), Prim (p_get p_js ''uint16'')])]
     = Inr (StructJs (Num 8) [Vector ''v'' (Prim (p_get p_js ''float32'')) 2 (Num 0)])"
    using th' [THEN conjunct2, THEN conjunct2, THEN conjunct2, THEN conjunct1]
    by (simp add: p_get_def p_js_def numeral_2_eq_2)
  from 1 2 3 show ?thesis by (intro conjI)
qed

section \<open>Configuration errors\<close>

lemma entry_js_accepted:
  "accepted_js t \<Longrightarrow> \<exists>f offset'. entry_js name t offset = Inr (f, offset')"
  by (cases "(name, t, offset)" rule: entry_js.cases) auto

lemma entry_js_no_property:
  "no_property_js t \<Longrightarrow> entry_js name t offset = Inl TypeError"
  by (cases "(name, t, offset)" rule: entry_js.cases) auto

lemma entry_js_primitive:
  "primitive_js t \<Longrightarrow> entry_js name t offset = Inl (unknown_field_type name)"
  by (cases "(name, t, offset)" rule: entry_js.cases) auto

lemma loop_js_accepted:
  "list_all (\<lambda>(name, t). accepted_js t) pre \<Longrightarrow>
     \<exists>offset' acc'. \<forall>rest. loop_js (pre @ rest) offset acc = loop_js rest offset' acc'"
proof (induction pre arbitrary: offset acc)
  case Nil
  then show ?case by auto
next
  case (Cons a pre)
  obtain name t where a: "a = (name, t)" by (cases a)
  with Cons.prems have "accepted_js t" and pre: "list_all (\<lambda>(name, t). accepted_js t) pre"
    by simp_all
  then obtain f o1 where e: "entry_js name t offset = Inr (f, o1)"
    using entry_js_accepted by blast
  from Cons.IH [OF pre, of o1 "acc @ [f]"] obtain o2 acc2 where
    "\<forall>rest. loop_js (pre @ rest) o1 (acc @ [f]) = loop_js rest o2 acc2" by blast
  then show ?case using a e by auto
qed

lemma positive_integer_iff:
  "positive_integer len = Some n \<longleftrightarrow> 0 < n \<and> len = Val (Number (of_nat n))"
proof
  assume p: "positive_integer len = Some n"
  then obtain q where len: "len = Val (Number q)"
    by (cases len rule: positive_integer.cases) auto
  with p have q: "q = of_int \<lfloor>q\<rfloor>" "0 < q" and n: "n = nat \<lfloor>q\<rfloor>"
    by (auto split: if_splits)
  from q have "0 < \<lfloor>q\<rfloor>" by (metis of_int_0_less_iff)
  then have "of_nat n = (of_int \<lfloor>q\<rfloor> :: rat)" and "0 < n" using n by simp_all
  with q len show "0 < n \<and> len = Val (Number (of_nat n))" by simp
next
  assume "0 < n \<and> len = Val (Number (of_nat n))"
  then show "positive_integer len = Some n" by simp
qed

lemma array_throws_iff:
  "(\<exists>e. array_js x len = Inl e) \<longleftrightarrow>
     positive_integer len = None \<or> \<not> (\<exists>d. x = Desc d \<and> has_create d)"
  "(\<exists>e. array_ts x len = Inl e) \<longleftrightarrow>
     positive_integer len = None \<or> \<not> (\<exists>d. x = Desc d \<and> has_create d)"
  by (cases "(''m'', x)" rule: check_structDesc.cases;
      auto simp: array_js_def array_ts_def split: sum.splits option.splits)+

text \<open>The properties \<^verbatim>\<open>b\<close>, \<^verbatim>\<open>1\<close> and \<^verbatim>\<open>0\<close>, created in this order, are listed as 0, 1, b.\<close>

lemma Object_entries_example:
  "Object_entries [(''b'', x), (''1'', y), (''0'', z)] = [(''0'', z), (''1'', y), (''b'', x)]"
  by (simp add: entries_simps numeral_value_def)

text \<open>
  C5, as stated: \<^verbatim>\<open>c.struct\<close> throws an error naming the offending field when the shape of a
  field is not one of the four recognized shapes. For the field value \<^verbatim>\<open>undefined\<close>,
  \<^verbatim>\<open>c.struct\<close> of \<^verbatim>\<open>index.js\<close> throws the TypeError of the property read \<^verbatim>\<open>type.kind\<close>, which
  names no field, and so it does for the list \<^verbatim>\<open>[undefined]\<close>; and for the list \<^verbatim>\<open>[5, 5]\<close>, which
  is no list of primitive descriptors, it throws nothing and returns a descriptor of size
  \<^verbatim>\<open>NaN\<close>.
\<close>

theorem struct_js_unnamed_errors:
  "struct_js [(''a'', Val Undefined)] = Inl TypeError
   \<and> struct_js [(''v'', List [Val Undefined])] = Inl TypeError
   \<and> struct_js [(''v'', List [Val (Number 5), Val (Number 5)])]
       = Inr (StructJs NaN [Vector ''v'' (Val (Number 5)) 2 (Num 0)])"
  by (simp add: struct_js_def Object_entries_single)

text \<open>
  C5, amended. \<^verbatim>\<open>c.struct\<close> of \<^verbatim>\<open>index.js\<close> walks the fields in the order of
  \<^verbatim>\<open>Object.entries\<close>. When the fields before a field are accepted and the field is a Number or
  a BigInt, the error \<^verbatim>\<open>Unknown field type for "name"\<close> naming that field is thrown; when it
  is \<^verbatim>\<open>undefined\<close>, \<^verbatim>\<open>null\<close>, an empty list or a list whose first element is \<^verbatim>\<open>undefined\<close> or
  \<^verbatim>\<open>null\<close>, a TypeError is thrown. When every field is accepted, a descriptor is returned;
  accepted are a primitive descriptor, an array descriptor, a struct descriptor whose size
  is a number other than 0, and every list whose first element is neither \<^verbatim>\<open>undefined\<close> nor
  \<^verbatim>\<open>null\<close>, whatever its elements are. \<^verbatim>\<open>c.array\<close> of both modules throws exactly when the
  length is not a positive whole number or the first argument is not a descriptor with a
  \<^verbatim>\<open>create\<close> function. Neither builds a view.
\<close>

theorem configuration_errors:
  "(list_all (\<lambda>(name, t). accepted_js t) pre \<and> Object_entries schema = pre @ (name, t) # post \<longrightarrow>
      (primitive_js t \<longrightarrow> struct_js schema = Inl (unknown_field_type name))
      \<and> (no_property_js t \<longrightarrow> struct_js schema = Inl TypeError))
   \<and> (list_all (\<lambda>(name, t). accepted_js t) schema \<longrightarrow> (\<exists>d. struct_js schema = Inr d))
   \<and> ((\<exists>e. array_js x len = Inl e) \<longleftrightarrow>
         positive_integer len = None \<or> \<not> (\<exists>d. x = Desc d \<and> has_create d))
   \<and> ((\<exists>e. array_ts x len = Inl e) \<longleftrightarrow>
         positive_integer len = None \<or> \<not> (\<exists>d. x = Desc d \<and> has_create d))
   \<and> (positive_integer len \<noteq> None \<longleftrightarrow> (\<exists>n. 0 < n \<and> len = Val (Number (of_nat n))))"
proof (intro conjI impI)
  assume a: "list_all (\<lambda>(name, t). accepted_js t) pre
             \<and> Object_entries schema = pre @ (name, t) # post"
  then obtain o1 acc1 where
    "\<forall>rest. loop_js (pre @ rest) (Num 0) [] = loop_js rest o1 acc1"
    using loop_js_accepted by blast
  then have l: "loop_js (Object_entries schema) (Num 0) [] = loop_js ((name, t) # post) o1 acc1"
    using a by simp
  show "struct_js schema = Inl (unknown_field_type name)" if "primitive_js t"
    using l entry_js_primitive [OF that, of name o1] by (simp add: struct_js_def)
  show "struct_js schema = Inl TypeError" if "no_property_js t"
    using l entry_js_no_property [OF that, of name o1] by (simp add: struct_js_def)
next
  assume "list_all (\<lambda>(name, t). accepted_js t) schema"
  then have "list_all (\<lambda>(name, t). accepted_js t) (Object_entries schema)"
    by (simp add: list_all_Object_entries)
  then obtain o1 acc1 where
    "\<forall>rest. loop_js (Object_entries schema @ rest) (Num 0) [] = loop_js rest o1 acc1"
    using loop_js_accepted by blast
  from this [rule_format, of "[]"] show "\<exists>d. struct_js schema = Inr d"
    by (simp add: struct_js_def)
next
  show "(\<exists>e. array_js x len = Inl e) \<longleftrightarrow>
         positive_integer len = None \<or> \<not> (\<exists>d. x = Desc d \<and> has_create d)"
    by (rule array_throws_iff)
  show "(\<exists>e. array_ts x len = Inl e) \<longleftrightarrow>
         positive_integer len = None \<or> \<not> (\<exists>d. x = Desc d \<and> has_create d)"
    by (rule array_throws_iff)
  show "positive_integer len \<noteq> None \<longleftrightarrow> (\<exists>n. 0 < n \<and> len = Val (Number (of_nat n)))"
    using positive_integer_iff [of len] by auto
qed

text \<open>
  A Number as the type of field \<^verbatim>\<open>b\<close> is reported by name; with a field \<^verbatim>\<open>0\<close> that is
  \<^verbatim>\<open>undefined\<close> declared after it, the TypeError of field \<^verbatim>\<open>0\<close> comes first; a schema of
  accepted fields, the list \<^verbatim>\<open>[5]\<close> among them, is accepted; the length 2.5 and the descriptor
  \<^verbatim>\<open>undefined\<close> are rejected, and \<^verbatim>\<open>c.array(Elem, 2)\<close> is not.
\<close>

theorem configuration_errors_witness:
  "struct_js [(''a'', float_js), (''b'', Val (Number 5)), (''c'', float_js)]
     = Inl (unknown_field_type ''b'')
   \<and> struct_js [(''b'', Val (Number 5)), (''0'', Val Undefined)] = Inl TypeError
   \<and> (\<exists>d. struct_js [(''a'', float_js), (''v'', float3_js), (''e'', Desc Elem_js),
                       (''items'', Desc (ArrayJs Elem_js 2 (Num 8))),
                       (''w'', List [Val (Number 5)])] = Inr d)
   \<and> (\<exists>e. array_js (Desc Elem_js) (Val (Number (5 / 2))) = Inl e)
   \<and> (\<exists>e. array_ts (Val Undefined) (Val (Number 2)) = Inl e)
   \<and> \<not> (\<exists>e. array_ts (Desc Elem_ts) (Val (Number 2)) = Inl e)"
proof -
  have 1: "struct_js [(''a'', float_js), (''b'', Val (Number 5)), (''c'', float_js)]
     = Inl (unknown_field_type ''b'')"
    using configuration_errors [of "[(''a'', float_js)]"
        "[(''a'', float_js), (''b'', Val (Number 5)), (''c'', float_js)]" "''b''" "Val (Number 5)"
        "[(''c'', float_js)]", THEN conjunct1]
    by (simp add: float_js_def entries_simps)
  have 2: "struct_js [(''b'', Val (Number 5)), (''0'', Val Undefined)] = Inl TypeError"
    using configuration_errors [of "[]" "[(''b'', Val (Number 5)), (''0'', Val Undefined)]"
        "''0''" "Val Undefined" "[(''b'', Val (Number 5))]", THEN conjunct1]
    by (simp add: entries_simps numeral_value_def)
  have 3: "\<exists>d. struct_js [(''a'', float_js), (''v'', float3_js), (''e'', Desc Elem_js),
                       (''items'', Desc (ArrayJs Elem_js 2 (Num 8))),
                       (''w'', List [Val (Number 5)])] = Inr d"
    using configuration_errors [of _ "[(''a'', float_js), (''v'', float3_js), (''e'', Desc Elem_js),
                       (''items'', Desc (ArrayJs Elem_js 2 (Num 8))),
                       (''w'', List [Val (Number 5)])]", THEN conjunct2, THEN conjunct1]
    by (simp add: float_js_def float3_js_def Elem_js_def)
  have f: "\<lfloor>5 / 2 :: rat\<rfloor> = 2" by (simp add: floor_eq_iff)
  have 4: "\<exists>e. array_js (Desc Elem_js) (Val (Number (5 / 2))) = Inl e"
    using configuration_errors [where x = "Desc Elem_js" and len = "Val (Number (5 / 2))",
        THEN conjunct2, THEN conjunct2, THEN conjunct1] f
    by simp
  have 5: "\<exists>e. array_ts (Val Undefined) (Val (Number 2)) = Inl e"
    using configuration_errors [where x = "Val Undefined" and len = "Val (Number 2)",
        THEN conjunct2, THEN conjunct2, THEN conjunct2, THEN conjunct1]
    by simp
  have 6: "\<not> (\<exists>e. array_ts (Desc Elem_ts) (Val (Number 2)) = Inl e)"
    using configuration_errors [where x = "Desc Elem_ts" and len = "Val (Number 2)",
        THEN conjunct2, THEN conjunct2, THEN conjunct2, THEN conjunct1]
    by (simp add: Elem_ts_def)
  from 1 2 3 4 5 6 show ?thesis by (intro conjI)
qed

end
